theory Spec2Isabelle
  imports Main
begin

section \<open>JavaScript values that cross the stdio channel\<close>

text \<open>
  The values that \<^verbatim>\<open>JSON.parse\<close> produces. A number \<open>JNum m e\<close> stands for the decimal
  \<open>m * 10 ^ e\<close> with \<open>e \<le> 0\<close> and no needless trailing zero in \<open>m\<close>: an integer \<open>v\<close> is
  \<open>JNum v 0\<close>, and two literals of the same value are the same term, as they are the same
  number for \<^verbatim>\<open>Map.has\<close>. Rounding to binary64 is outside this model. Strings are lists of
  code units below 256. An object keeps its properties in insertion order. The JavaScript
  value \<^verbatim>\<open>undefined\<close> is \<open>None\<close> of \<open>json option\<close>.
\<close>

datatype json =
    JNull
  | JBool bool
  | JNum int int
  | JStr string
  | JArr "json list"
  | JObj "(string \<times> json) list"

text \<open>Truthiness, as \<^verbatim>\<open>if (v)\<close>, \<^verbatim>\<open>v && ...\<close> and \<^verbatim>\<open>v || ...\<close> test it.\<close>

fun truthy :: "json option \<Rightarrow> bool" where
  "truthy None = False"
| "truthy (Some JNull) = False"
| "truthy (Some (JBool b)) = b"
| "truthy (Some (JNum m e)) = (m \<noteq> 0)"
| "truthy (Some (JStr s)) = (s \<noteq> [])"
| "truthy (Some (JArr xs)) = True"
| "truthy (Some (JObj ps)) = True"

text \<open>
  Property read \<^verbatim>\<open>v.name\<close> on a value that is neither \<^verbatim>\<open>null\<close> nor \<^verbatim>\<open>undefined\<close>:
  an own property of an object, \<^verbatim>\<open>undefined\<close> on anything else (the names read in this
  program are \<^verbatim>\<open>id\<close>, \<^verbatim>\<open>error\<close>, \<^verbatim>\<open>result\<close>, \<^verbatim>\<open>message\<close>, \<^verbatim>\<open>tools\<close> and \<^verbatim>\<open>prompts\<close>,
  none of which a primitive or an array has).
\<close>

fun get_prop :: "json \<Rightarrow> string \<Rightarrow> json option" where
  "get_prop (JObj ps) name = map_of ps name"
| "get_prop _ name = None"

text \<open>
  Writing a key of an object (\<^verbatim>\<open>o[k] = v\<close>, a later property of an object literal) or of
  a \<^verbatim>\<open>Map\<close> (\<^verbatim>\<open>m.set(k, v)\<close>): an existing key keeps its place, a new one goes last.
\<close>

fun map_set :: "('k \<times> 'v) list \<Rightarrow> 'k \<Rightarrow> 'v \<Rightarrow> ('k \<times> 'v) list" where
  "map_set [] k v = [(k, v)]"
| "map_set ((k', v') # ps) k v = (if k' = k then (k, v) # ps else (k', v') # map_set ps k v)"

text \<open>\<^verbatim>\<open>m.delete(k)\<close>.\<close>

definition map_delete :: "('k \<times> 'v) list \<Rightarrow> 'k \<Rightarrow> ('k \<times> 'v) list" where
  "map_delete ps k = filter (\<lambda>kv. fst kv \<noteq> k) ps"

section \<open>\<^verbatim>\<open>JSON.parse\<close>\<close>

text \<open>
  \<^verbatim>\<open>JSON.parse\<close> belongs to the runtime, not to the repository. Every general theorem below
  takes the parser as a parameter \<open>P :: string \<Rightarrow> 'j option\<close> (\<open>None\<close> is the
  \<^verbatim>\<open>SyntaxError\<close>). For the concrete inputs a parser of the JSON grammar (ECMA-404) is
  written out here. It is a recursive descent whose recursion is bounded by a counter that
  starts above the length of the text; each nested call has consumed at least one character.
\<close>

definition dquote :: char where "dquote = CHR 0x22"
definition backslash :: char where "backslash = CHR 0x5C"

definition json_ws :: "char \<Rightarrow> bool" where
  "json_ws c = (c = CHR '' '' \<or> c = CHR 0x09 \<or> c = CHR 0x0A \<or> c = CHR 0x0D)"

definition skip_ws :: "string \<Rightarrow> string" where
  "skip_ws s = dropWhile json_ws s"

definition code_unit :: "char \<Rightarrow> nat" where
  "code_unit c = of_char c"

definition is_digit :: "char \<Rightarrow> bool" where
  "is_digit c = (48 \<le> code_unit c \<and> code_unit c \<le> 57)"

definition digit_val :: "char \<Rightarrow> int" where
  "digit_val c = int (code_unit c) - 48"

definition digits_val :: "string \<Rightarrow> int" where
  "digits_val ds = foldl (\<lambda>a c. 10 * a + digit_val c) 0 ds"

fun hex_val :: "char \<Rightarrow> nat option" where
  "hex_val c =
     (if 48 \<le> code_unit c \<and> code_unit c \<le> 57 then Some (code_unit c - 48)
      else if 97 \<le> code_unit c \<and> code_unit c \<le> 102 then Some (code_unit c - 87)
      else if 65 \<le> code_unit c \<and> code_unit c \<le> 70 then Some (code_unit c - 55)
      else None)"

text \<open>
  The normal form of \<open>m * 10 ^ e\<close>: a non-negative exponent is multiplied out, a negative
  one loses a trailing zero of the mantissa at each step (the counter is the number of steps
  left, at most \<open>- e\<close>).
\<close>

fun strip_zeros :: "nat \<Rightarrow> int \<Rightarrow> int \<Rightarrow> json" where
  "strip_zeros 0 m e = JNum m e"
| "strip_zeros (Suc n) m e =
     (if m mod 10 = 0 then strip_zeros n (m div 10) (e + 1) else JNum m e)"

definition mk_num :: "int \<Rightarrow> int \<Rightarrow> json" where
  "mk_num m e = (if 0 \<le> e then JNum (m * 10 ^ nat e) 0 else strip_zeros (nat (- e)) m e)"

text \<open>
  A number: \<^verbatim>\<open>-? (0 | [1-9][0-9]*) (. [0-9]+)? ([eE] [+-]? [0-9]+)?\<close>. The argument starts
  at the first character of the number.
\<close>

definition parse_number :: "string \<Rightarrow> (json \<times> string) option" where
  "parse_number s =
     (let (neg, s1) = (case s of c # r \<Rightarrow> if c = CHR ''-'' then (True, r) else (False, s)
                                | [] \<Rightarrow> (False, s));
          ip = takeWhile is_digit s1;
          s2 = dropWhile is_digit s1
      in if ip = [] \<or> (hd ip = CHR ''0'' \<and> length ip > 1) then None
         else
           let (fp_ok, fp, s3) =
                 (case s2 of
                    c # r \<Rightarrow>
                      if c = CHR ''.''
                      then (takeWhile is_digit r \<noteq> [], takeWhile is_digit r, dropWhile is_digit r)
                      else (True, [], s2)
                  | [] \<Rightarrow> (True, [], s2));
               (ex_ok, ex, s4) =
                 (case s3 of
                    c # r \<Rightarrow>
                      if c = CHR ''e'' \<or> c = CHR ''E''
                      then
                        (let (eneg, r1) =
                               (case r of
                                  d # r' \<Rightarrow>
                                    if d = CHR ''-'' then (True, r')
                                    else if d = CHR ''+'' then (False, r')
                                    else (False, r)
                                | [] \<Rightarrow> (False, r));
                             ed = takeWhile is_digit r1
                         in (ed \<noteq> [], (if eneg then - digits_val ed else digits_val ed),
                             dropWhile is_digit r1))
                      else (True, 0, s3)
                  | [] \<Rightarrow> (True, 0, s3))
           in if \<not> fp_ok \<or> \<not> ex_ok then None
              else
                let m = digits_val (ip @ fp);
                    m' = (if neg then - m else m)
                in Some (mk_num m' (ex - int (length fp)), s4))"

text \<open>
  The characters of a string literal after its opening quote, up to the closing quote.
  A control character is refused; an escape \<^verbatim>\<open>\uXXXX\<close> above 00FF has no code unit in this
  model and is refused as well.
\<close>

fun parse_chars :: "string \<Rightarrow> string \<Rightarrow> (string \<times> string) option" where
  "parse_chars acc [] = None"
| "parse_chars acc [c] = (if c = dquote then Some (rev acc, []) else None)"
| "parse_chars acc (c # e # cs) =
     (if c = dquote then Some (rev acc, e # cs)
      else if c = backslash then
        (if e = dquote then parse_chars (dquote # acc) cs
         else if e = backslash then parse_chars (backslash # acc) cs
         else if e = CHR ''/'' then parse_chars (CHR ''/'' # acc) cs
         else if e = CHR ''b'' then parse_chars (CHR 0x08 # acc) cs
         else if e = CHR ''f'' then parse_chars (CHR 0x0C # acc) cs
         else if e = CHR ''n'' then parse_chars (CHR 0x0A # acc) cs
         else if e = CHR ''r'' then parse_chars (CHR 0x0D # acc) cs
         else if e = CHR ''t'' then parse_chars (CHR 0x09 # acc) cs
         else if e = CHR ''u'' then
           (case cs of
              h1 # h2 # h3 # h4 # cs' \<Rightarrow>
                (case (hex_val h1, hex_val h2, hex_val h3, hex_val h4) of
                   (Some a, Some b, Some c', Some d) \<Rightarrow>
                     (if a = 0 \<and> b = 0 then parse_chars (char_of (16 * c' + d) # acc) cs'
                      else None)
                 | _ \<Rightarrow> None)
            | _ \<Rightarrow> None)
         else None)
      else if code_unit c < 32 then None
      else parse_chars (c # acc) (e # cs))"

fun strip_prefix :: "string \<Rightarrow> string \<Rightarrow> string option" where
  "strip_prefix [] s = Some s"
| "strip_prefix (p # ps) [] = None"
| "strip_prefix (p # ps) (c # cs) = (if p = c then strip_prefix ps cs else None)"

fun parse_value :: "nat \<Rightarrow> string \<Rightarrow> (json \<times> string) option"
  and parse_elements :: "nat \<Rightarrow> json list \<Rightarrow> string \<Rightarrow> (json \<times> string) option"
  and parse_members :: "nat \<Rightarrow> (string \<times> json) list \<Rightarrow> string \<Rightarrow> (json \<times> string) option"
where
  "parse_value 0 s = None"
| "parse_value (Suc n) s =
     (case skip_ws s of
        [] \<Rightarrow> None
      | c # cs \<Rightarrow>
          if c = CHR ''{'' then
            (case skip_ws cs of
               [] \<Rightarrow> None
             | d # r \<Rightarrow> if d = CHR ''}'' then Some (JObj [], r) else parse_members n [] cs)
          else if c = CHR ''['' then
            (case skip_ws cs of
               [] \<Rightarrow> None
             | d # r \<Rightarrow> if d = CHR '']'' then Some (JArr [], r) else parse_elements n [] cs)
          else if c = dquote then
            (case parse_chars [] cs of None \<Rightarrow> None | Some (str, r) \<Rightarrow> Some (JStr str, r))
          else if c = CHR ''t'' then
            (case strip_prefix ''rue'' cs of None \<Rightarrow> None | Some r \<Rightarrow> Some (JBool True, r))
          else if c = CHR ''f'' then
            (case strip_prefix ''alse'' cs of None \<Rightarrow> None | Some r \<Rightarrow> Some (JBool False, r))
          else if c = CHR ''n'' then
            (case strip_prefix ''ull'' cs of None \<Rightarrow> None | Some r \<Rightarrow> Some (JNull, r))
          else parse_number (c # cs))"
| "parse_elements 0 acc s = None"
| "parse_elements (Suc n) acc s =
     (case parse_value n s of
        None \<Rightarrow> None
      | Some (v, r) \<Rightarrow>
          (case skip_ws r of
             [] \<Rightarrow> None
           | d # r' \<Rightarrow>
               if d = CHR '','' then parse_elements n (acc @ [v]) r'
               else if d = CHR '']'' then Some (JArr (acc @ [v]), r')
               else None))"
| "parse_members 0 acc s = None"
| "parse_members (Suc n) acc s =
     (case skip_ws s of
        [] \<Rightarrow> None
      | q # s1 \<Rightarrow>
          if q \<noteq> dquote then None
          else
            (case parse_chars [] s1 of
               None \<Rightarrow> None
             | Some (k, s2) \<Rightarrow>
                 (case skip_ws s2 of
                    [] \<Rightarrow> None
                  | col # s3 \<Rightarrow>
                      if col \<noteq> CHR '':'' then None
                      else
                        (case parse_value n s3 of
                           None \<Rightarrow> None
                         | Some (v, r) \<Rightarrow>
                             (case skip_ws r of
                                [] \<Rightarrow> None
                              | d # r' \<Rightarrow>
                                  if d = CHR '','' then parse_members n (map_set acc k v) r'
                                  else if d = CHR ''}'' then Some (JObj (map_set acc k v), r')
                                  else None)))))"

text \<open>The whole text must be one value, with nothing but white space around it.\<close>

definition JSON_parse :: "string \<Rightarrow> json option" where
  "JSON_parse s =
     (case parse_value (Suc (length s)) s of
        None \<Rightarrow> None
      | Some (v, r) \<Rightarrow> if skip_ws r = [] then Some v else None)"

section \<open>The message framer: \<^verbatim>\<open>StdioClientTransport._parseJsonResponses\<close>\<close>

text \<open>
  \<^verbatim>\<open>String.prototype.trim\<close> removes white space and line terminators at both ends; below
  256 these are the code units 09 to 0D, 20 and A0.
\<close>

definition is_space :: "char \<Rightarrow> bool" where
  "is_space c =
     (c = CHR 0x09 \<or> c = CHR 0x0A \<or> c = CHR 0x0B \<or> c = CHR 0x0C \<or> c = CHR 0x0D
      \<or> c = CHR 0x20 \<or> c = CHR 0xA0)"

definition trim :: "string \<Rightarrow> string" where
  "trim s = rev (dropWhile is_space (rev (dropWhile is_space s)))"

text \<open>
  The inner \<^verbatim>\<open>for\<close> loop: count \<^verbatim>\<open>{\<close> and \<^verbatim>\<open>}\<close>, whatever surrounds them, and stop at the
  first \<^verbatim>\<open>}\<close> where the two counts agree. \<open>None\<close> is \<^verbatim>\<open>endPos === -1\<close>.
\<close>

fun scan_braces :: "nat \<Rightarrow> nat \<Rightarrow> nat \<Rightarrow> string \<Rightarrow> nat option" where
  "scan_braces i openBrackets closeBrackets [] = None"
| "scan_braces i openBrackets closeBrackets (c # cs) =
     (let openBrackets' = (if c = CHR ''{'' then openBrackets + 1 else openBrackets)
      in if c = CHR ''}'' then
           (if openBrackets' = closeBrackets + 1 then Some (i + 1)
            else scan_braces (i + 1) openBrackets' (closeBrackets + 1) cs)
         else scan_braces (i + 1) openBrackets' closeBrackets cs)"

definition findEndPos :: "string \<Rightarrow> nat option" where
  "findEndPos remaining = scan_braces 0 0 0 remaining"

lemma scan_braces_pos: "scan_braces i ob cb s = Some e \<Longrightarrow> i < e"
  by (induction s arbitrary: i ob cb) (auto simp: Let_def split: if_splits dest: Suc_lessD)

lemma findEndPos_pos: "findEndPos s = Some e \<Longrightarrow> 0 < e"
  unfolding findEndPos_def by (drule scan_braces_pos) simp

lemma length_trim_le: "length (trim s) \<le> length s"
proof -
  have "length (trim s) \<le> length (dropWhile is_space s)"
    unfolding trim_def by (simp add: length_dropWhile_le order_trans [OF length_dropWhile_le])
  also have "\<dots> \<le> length s" by (rule length_dropWhile_le)
  finally show ?thesis .
qed

text \<open>
  The \<^verbatim>\<open>while\<close> loop over its two variables \<^verbatim>\<open>responses\<close> and \<^verbatim>\<open>remaining\<close>. The loop
  leaves with both; the method returns \<^verbatim>\<open>responses\<close> only.
\<close>

function parse_loop :: "(string \<Rightarrow> 'j option) \<Rightarrow> 'j list \<Rightarrow> string \<Rightarrow> 'j list \<times> string" where
  "parse_loop P responses remaining =
     (if length remaining > 0 then
        (case P remaining of
           Some parsedObj \<Rightarrow> (responses @ [parsedObj], remaining)
         | None \<Rightarrow>
             (case findEndPos remaining of
                None \<Rightarrow> (responses, remaining)
              | Some endPos \<Rightarrow>
                  (case P (take endPos remaining) of
                     Some parsedObj \<Rightarrow>
                       parse_loop P (responses @ [parsedObj]) (trim (drop endPos remaining))
                   | None \<Rightarrow> parse_loop P responses (trim (drop 1 remaining)))))
      else (responses, remaining))"
  by pat_completeness auto
termination
proof (relation "measure (\<lambda>(P, responses, remaining). length remaining)")
  show "wf (measure (\<lambda>(P, responses, remaining). length remaining))" by simp
next
  fix P :: "string \<Rightarrow> 'j option" and responses :: "'j list" and remaining endPos parsedObj
  assume "0 < length remaining" and "findEndPos remaining = Some endPos"
  then have "length (drop endPos remaining) < length remaining"
    using findEndPos_pos by fastforce
  then show "((P, responses @ [parsedObj], trim (drop endPos remaining)), P, responses, remaining)
        \<in> measure (\<lambda>(P, responses, remaining). length remaining)"
    using length_trim_le [of "drop endPos remaining"] by simp
next
  fix P :: "string \<Rightarrow> 'j option" and responses :: "'j list" and remaining :: string
  assume "0 < length remaining"
  then have "length (drop 1 remaining) < length remaining" by simp
  then show "((P, responses, trim (drop 1 remaining)), P, responses, remaining)
        \<in> measure (\<lambda>(P, responses, remaining). length remaining)"
    using length_trim_le [of "drop 1 remaining"] by simp
qed

declare parse_loop.simps [simp del]

definition parseJsonResponses :: "(string \<Rightarrow> 'j option) \<Rightarrow> string \<Rightarrow> 'j list" where
  "parseJsonResponses P text = fst (parse_loop P [] (trim text))"

subsection \<open>Streams cut at object boundaries: the hypotheses\<close>

text \<open>
  The hypotheses of the boundary theorem, as predicates. A \<^emph>\<open>line\<close> is the text of one
  object followed by any white space (a server writes one object and a newline): it starts
  with a character that is not white space, the scan of its trimmed text stops at its very
  end, and the parser accepts the trimmed text. \<open>multi_fails\<close> says that the parser refuses
  a text of two or more of the lines taken together, which is what makes the loop leave its
  first \<^verbatim>\<open>JSON.parse(remaining)\<close> through the \<^verbatim>\<open>catch\<close>.
\<close>

definition line_ok :: "(string \<Rightarrow> 'j option) \<Rightarrow> string \<Rightarrow> bool" where
  "line_ok P u \<longleftrightarrow>
     u \<noteq> [] \<and> \<not> is_space (hd u) \<and> findEndPos (trim u) = Some (length (trim u)) \<and> P (trim u) \<noteq> None"

fun multi_fails :: "(string \<Rightarrow> 'j option) \<Rightarrow> string list \<Rightarrow> bool" where
  "multi_fails P [] = True"
| "multi_fails P [u] = True"
| "multi_fails P (u # v # us) = (P (trim (concat (u # v # us))) = None \<and> multi_fails P (v # us))"

text \<open>The right half of \<^verbatim>\<open>trim\<close>, for the proofs.\<close>

definition rstrip :: "string \<Rightarrow> string" where
  "rstrip s = rev (dropWhile is_space (rev s))"

section \<open>The transport: \<^verbatim>\<open>StdioClientTransport\<close>\<close>

text \<open>
  A promise made by \<^verbatim>\<open>sendRequest\<close> is an index into the list of all promises the transport
  has made. \<open>Rejected v\<close> is a rejection with \<^verbatim>\<open>new Error(v)\<close>; the message of that error is
  \<open>s\<close> when \<open>v = JStr s\<close>. The closures \<^verbatim>\<open>resolve\<close> and \<^verbatim>\<open>reject\<close> of a promise do nothing
  once it is settled.
\<close>

datatype outcome = Pending | Resolved "json option" | Rejected json

definition settle :: "nat \<Rightarrow> outcome \<Rightarrow> outcome list \<Rightarrow> outcome list" where
  "settle p out ps = (if p < length ps \<and> ps ! p = Pending then ps[p := out] else ps)"

text \<open>
  The state of one transport. \<open>killed\<close> is \<^verbatim>\<open>this.process.killed\<close>. \<open>responseHandlers\<close> is the
  \<^verbatim>\<open>Map\<close> from request id to the \<^verbatim>\<open>{resolve, reject}\<close> of a promise. \<open>written\<close> holds the
  request envelopes handed to \<^verbatim>\<open>stdin.write\<close>, oldest first; each stands for the line
  \<^verbatim>\<open>JSON.stringify(request) + '\n'\<close>. \<open>writes\<close> holds the callbacks of those writes that
  have not run yet, and \<open>timers\<close> the \<^verbatim>\<open>setTimeout\<close> callbacks that have not run yet with
  the time at which they are due, both with the \<^verbatim>\<open>requestId\<close> and the promise they closed
  over. \<open>now\<close> is the clock, in milliseconds (an integer, as \<^verbatim>\<open>Date.now()\<close> is).
\<close>

record transport =
  killed :: bool
  responseHandlers :: "(json \<times> nat) list"
  lastRequestId :: nat
  promises :: "outcome list"
  written :: "json list"
  writes :: "(json \<times> nat) list"
  timers :: "(int \<times> json \<times> nat) list"
  now :: int

text \<open>The state the constructor leaves, for a process that was handed to it.\<close>

definition new_transport :: transport where
  "new_transport =
     \<lparr>killed = False, responseHandlers = [], lastRequestId = 0, promises = [], written = [],
      writes = [], timers = [], now = 0\<rparr>"

text \<open>
  \<^verbatim>\<open>requestObj.id || ++this.lastRequestId\<close>: the id of the request object when it is truthy,
  else the counter, incremented first. The request object is its list of properties.
\<close>

definition assign_id :: "transport \<Rightarrow> (string \<times> json) list \<Rightarrow> json \<times> transport" where
  "assign_id st requestObj =
     (let counted = (JNum (int (lastRequestId st + 1)) 0,
                     st\<lparr>lastRequestId := lastRequestId st + 1\<rparr>)
      in case map_of requestObj ''id'' of
           None \<Rightarrow> counted
         | Some v \<Rightarrow> if truthy (Some v) then (v, st) else counted)"

text \<open>
  \<^verbatim>\<open>sendRequest(requestObj)\<close>. The result is the rejection \<^verbatim>\<open>Process not available\<close>, or
  the new promise and the new state.
\<close>

definition sendRequest :: "transport \<Rightarrow> (string \<times> json) list \<Rightarrow> string + nat \<times> transport" where
  "sendRequest st requestObj =
     (if killed st then Inl ''Process not available''
      else
        let (requestId, st1) = assign_id st requestObj;
            request = map_set (map_set requestObj ''id'' requestId) ''jsonrpc'' (JStr ''2.0'');
            p = length (promises st1)
        in Inr (p, st1\<lparr>promises := promises st1 @ [Pending],
                       responseHandlers := map_set (responseHandlers st1) requestId p,
                       written := written st1 @ [JObj request],
                       writes := writes st1 @ [(requestId, p)],
                       timers := timers st1 @ [(now st1 + 30000, requestId, p)]\<rparr>))"

text \<open>The callback of \<^verbatim>\<open>stdin.write\<close>, with the error message if the write failed.\<close>

definition write_callback :: "transport \<Rightarrow> json \<Rightarrow> nat \<Rightarrow> string option \<Rightarrow> transport" where
  "write_callback st requestId p err =
     (case err of
        None \<Rightarrow> st
      | Some m \<Rightarrow>
          st\<lparr>responseHandlers := map_delete (responseHandlers st) requestId,
             promises := settle p (Rejected (JStr (''Failed to write to process: '' @ m)))
                           (promises st)\<rparr>)"

text \<open>The callback of \<^verbatim>\<open>setTimeout(..., 30000)\<close>.\<close>

definition timeout_callback :: "transport \<Rightarrow> json \<Rightarrow> nat \<Rightarrow> transport" where
  "timeout_callback st requestId p =
     (if map_of (responseHandlers st) requestId \<noteq> None then
        st\<lparr>responseHandlers := map_delete (responseHandlers st) requestId,
           promises := settle p (Rejected (JStr ''Request timed out after 30 seconds''))
                         (promises st)\<rparr>
      else st)"

text \<open>
  A parsed object or array is a new reference, which no key of a \<^verbatim>\<open>Map\<close> equals; the other
  values are compared by value. (A key that the caller of \<^verbatim>\<open>sendRequest\<close> supplied as an
  object is compared by structure in \<open>timeout_callback\<close> and \<open>write_callback\<close>, which hold
  the same reference.)
\<close>

fun is_primitive :: "json \<Rightarrow> bool" where
  "is_primitive (JArr xs) = False"
| "is_primitive (JObj ps) = False"
| "is_primitive _ = True"

text \<open>\<^verbatim>\<open>response.error.message || 'Unknown error'\<close>, for a truthy \<^verbatim>\<open>response.error\<close>.\<close>

definition error_message :: "json \<Rightarrow> json" where
  "error_message err =
     (case get_prop err ''message'' of
        None \<Rightarrow> JStr ''Unknown error''
      | Some m \<Rightarrow> if truthy (Some m) then m else JStr ''Unknown error'')"

text \<open>
  \<^verbatim>\<open>new Error(message)\<close> turns a message that is not \<^verbatim>\<open>undefined\<close> into a string. For an
  object that \<^verbatim>\<open>JSON.parse\<close> made this calls the \<^verbatim>\<open>toString\<close> it finds on the object; an own
  property of that name is not callable (no value of JSON is), the \<^verbatim>\<open>valueOf\<close> that is
  tried next gives no primitive, and a \<^verbatim>\<open>TypeError\<close> is thrown. An array joins the strings
  of its elements, those that are not \<^verbatim>\<open>null\<close>, and throws when one of them does.
\<close>

fun to_string_throws :: "json \<Rightarrow> bool" where
  "to_string_throws (JObj ps) = (map_of ps ''toString'' \<noteq> None)"
| "to_string_throws (JArr xs) = list_ex to_string_throws xs"
| "to_string_throws _ = False"

text \<open>
  How one pass through the body of the \<^verbatim>\<open>for\<close> loop of \<^verbatim>\<open>_handleProcessOutput\<close> ends: at
  its end, or with a \<^verbatim>\<open>TypeError\<close> that leaves the loop for the \<^verbatim>\<open>catch\<close> around it. Both
  carry the state of the transport at that point.
\<close>

datatype iteration = Continue transport | TypeError transport

text \<open>
  The body of the loop. Reading \<^verbatim>\<open>response.id\<close> of \<^verbatim>\<open>null\<close> throws. For a response whose
  id has a handler, the handler is deleted first; then the promise is settled, unless
  \<^verbatim>\<open>new Error\<close> throws on the message, which leaves the promise as it is.
\<close>

definition handle_response :: "transport \<Rightarrow> json \<Rightarrow> iteration" where
  "handle_response st response =
     (if response = JNull then TypeError st
      else
        (case get_prop response ''id'' of
           None \<Rightarrow> Continue st
         | Some rid \<Rightarrow>
             if truthy (Some rid) \<and> is_primitive rid then
               (case map_of (responseHandlers st) rid of
                  None \<Rightarrow> Continue st
                | Some p \<Rightarrow>
                    let st1 = st\<lparr>responseHandlers := map_delete (responseHandlers st) rid\<rparr>
                    in (case get_prop response ''error'' of
                          None \<Rightarrow>
                            Continue (st1\<lparr>promises := settle p (Resolved (get_prop response ''result''))
                                                         (promises st1)\<rparr>)
                        | Some err \<Rightarrow>
                            if truthy (Some err) then
                              (if to_string_throws (error_message err) then TypeError st1
                               else Continue (st1\<lparr>promises := settle p (Rejected (error_message err))
                                                                 (promises st1)\<rparr>))
                            else
                              Continue (st1\<lparr>promises := settle p (Resolved (get_prop response ''result''))
                                                           (promises st1)\<rparr>)))
             else Continue st))"

text \<open>
  The loop inside its \<^verbatim>\<open>try\<close>. The \<^verbatim>\<open>catch\<close> logs the \<^verbatim>\<open>TypeError\<close>; the responses after
  the one that threw are not looked at.
\<close>

fun handle_responses :: "transport \<Rightarrow> json list \<Rightarrow> transport" where
  "handle_responses st [] = st"
| "handle_responses st (response # rest) =
     (case handle_response st response of
        TypeError st1 \<Rightarrow> st1
      | Continue st1 \<Rightarrow> handle_responses st1 rest)"

text \<open>
  A response on which the body of the loop cannot throw: it is not \<^verbatim>\<open>null\<close>, and if its
  \<^verbatim>\<open>error\<close> is truthy, the message of that error can be turned into a string.
\<close>

definition completes :: "json \<Rightarrow> bool" where
  "completes response \<longleftrightarrow>
     response \<noteq> JNull \<and>
     (case get_prop response ''error'' of
        None \<Rightarrow> True
      | Some err \<Rightarrow> \<not> (truthy (Some err) \<and> to_string_throws (error_message err)))"

text \<open>
  What a response that completes does to the promise of its handler: a rejection with
  \<^verbatim>\<open>new Error(response.error.message || 'Unknown error')\<close> when \<^verbatim>\<open>response.error\<close> is truthy,
  else \<^verbatim>\<open>response.result\<close>.
\<close>

definition outcome_of :: "json \<Rightarrow> outcome" where
  "outcome_of response =
     (case get_prop response ''error'' of
        None \<Rightarrow> Resolved (get_prop response ''result'')
      | Some err \<Rightarrow>
          if truthy (Some err) then Rejected (error_message err)
          else Resolved (get_prop response ''result''))"

definition handleProcessOutput :: "(string \<Rightarrow> json option) \<Rightarrow> transport \<Rightarrow> string \<Rightarrow> transport" where
  "handleProcessOutput P st outputStr = handle_responses st (parseJsonResponses P outputStr)"

text \<open>
  \<^verbatim>\<open>close()\<close>: \<^verbatim>\<open>kill()\<close> is called if the process was not killed before; it sets
  \<^verbatim>\<open>killed\<close> when the signal could be delivered.
\<close>

definition close :: "transport \<Rightarrow> bool \<Rightarrow> transport" where
  "close st delivered = (if \<not> killed st \<and> delivered then st\<lparr>killed := True\<rparr> else st)"

subsection \<open>The event loop around one transport\<close>

text \<open>
  What happens to a transport, one event at a time: a call of \<^verbatim>\<open>sendRequest\<close>, a chunk on
  the child's stdout, the completion of the oldest outstanding write (with its error, if
  any), the passing of some milliseconds, a call of \<^verbatim>\<open>close\<close>. When time passes, the timers
  that are due run in the order in which they were set; all timers of a transport have the
  same delay, so this is the order in which they are due.
\<close>

datatype event =
    Send "(string \<times> json) list"
  | Output string
  | WriteDone "string option"
  | Advance int
  | Close bool

definition advance :: "transport \<Rightarrow> int \<Rightarrow> transport" where
  "advance st d =
     (let t = now st + d;
          due = filter (\<lambda>tm. fst tm \<le> t) (timers st);
          later = filter (\<lambda>tm. \<not> fst tm \<le> t) (timers st);
          st1 = foldl (\<lambda>s tm. timeout_callback s (fst (snd tm)) (snd (snd tm))) st due
      in st1\<lparr>timers := later, now := t\<rparr>)"

definition write_done :: "transport \<Rightarrow> string option \<Rightarrow> transport" where
  "write_done st err =
     (case writes st of
        [] \<Rightarrow> st
      | w # ws \<Rightarrow> write_callback (st\<lparr>writes := ws\<rparr>) (fst w) (snd w) err)"

fun step :: "(string \<Rightarrow> json option) \<Rightarrow> transport \<Rightarrow> event \<Rightarrow> transport" where
  "step P st (Send requestObj) =
     (case sendRequest st requestObj of Inl e \<Rightarrow> st | Inr r \<Rightarrow> snd r)"
| "step P st (Output chunk) = handleProcessOutput P st chunk"
| "step P st (WriteDone err) = write_done st err"
| "step P st (Advance d) = advance st d"
| "step P st (Close delivered) = close st delivered"

definition run :: "(string \<Rightarrow> json option) \<Rightarrow> transport \<Rightarrow> event list \<Rightarrow> transport" where
  "run P st evs = foldl (step P) st evs"

text \<open>
  The ids under which the requests were written, oldest first; the request at position \<open>p\<close>
  is the one whose promise is \<open>p\<close>. And the events in which no caller brings an id of its
  own: a call of \<^verbatim>\<open>sendRequest\<close> without a truthy id, or any other event.
\<close>

definition written_ids :: "transport \<Rightarrow> json option list" where
  "written_ids st = map (\<lambda>request. get_prop request ''id'') (written st)"

fun counted :: "event \<Rightarrow> bool" where
  "counted (Send requestObj) = (\<not> truthy (map_of requestObj ''id''))"
| "counted _ = True"

subsection \<open>What every reachable state of a transport satisfies\<close>

text \<open>
  No two handlers share a key or a promise; a handler's key is truthy and its promise is
  still pending; the callbacks that have not run yet hold promises that exist; and a
  callback that holds the promise of a handler holds the key of that handler.
\<close>

definition transport_inv :: "transport \<Rightarrow> bool" where
  "transport_inv st \<longleftrightarrow>
     distinct (map fst (responseHandlers st)) \<and>
     distinct (map snd (responseHandlers st)) \<and>
     (\<forall>h\<in>set (responseHandlers st).
         truthy (Some (fst h)) \<and> snd h < length (promises st) \<and> promises st ! snd h = Pending) \<and>
     (\<forall>w\<in>set (writes st). snd w < length (promises st)) \<and>
     (\<forall>tm\<in>set (timers st). snd (snd tm) < length (promises st)) \<and>
     (\<forall>h\<in>set (responseHandlers st). \<forall>w\<in>set (writes st). snd w = snd h \<longrightarrow> fst w = fst h) \<and>
     (\<forall>h\<in>set (responseHandlers st). \<forall>tm\<in>set (timers st).
         snd (snd tm) = snd h \<longrightarrow> fst (snd tm) = fst h)"

subsection \<open>A state for the examples\<close>

text \<open>A new transport after two requests without ids, which the counter numbers 1 and 2.\<close>

definition two_sent :: transport where
  "two_sent = run JSON_parse new_transport
     [Send [(''method'', JStr ''tools/list''), (''params'', JObj [])],
      Send [(''method'', JStr ''prompts/list''), (''params'', JObj [])]]"

section \<open>The process supervisor: \<^verbatim>\<open>spawnMCPProcess\<close>\<close>

text \<open>
  What the child does between \<^verbatim>\<open>spawn(...)\<close> and the \<^verbatim>\<open>setTimeout(..., 500)\<close> callback is a
  list of events, in the order in which their handlers run: the \<^verbatim>\<open>error\<close> event with its
  message, the \<^verbatim>\<open>exit\<close> event with its code (\<open>None\<close> is \<^verbatim>\<open>null\<close>, the end by a signal), a
  chunk on stdout, a chunk on stderr. The resolution of script paths, the environment and
  the working directory decide which program runs, not what the promise does with these
  events, and are not modelled.
\<close>

datatype startup_event =
    ErrorEvent string
  | ExitEvent "int option"
  | StdoutData string
  | StderrData string

text \<open>
  The errors of the promise, one constructor for each message:
  \<^verbatim>\<open>No command specified for MCP process\<close>, the error of the \<^verbatim>\<open>error\<close> event,
  \<^verbatim>\<open>Process exited with code N\<close>, \<^verbatim>\<open>Process startup error: ...\<close> with the trimmed chunk, and
  \<^verbatim>\<open>Process was killed during startup\<close>.
\<close>

datatype spawn_error =
    NoCommand
  | SpawnFailed string
  | ExitedWithCode int
  | StartupError string
  | KilledDuringStartup

text \<open>
  The promise (\<open>None\<close> while it is pending, \<open>Inr ()\<close> when resolved with \<^verbatim>\<open>mcpProcess\<close>) and
  the flag \<^verbatim>\<open>startupErrorReceived\<close>.
\<close>

record startup =
  settled :: "(spawn_error + unit) option"
  startupErrorReceived :: bool

definition startup_begin :: startup where
  "startup_begin = \<lparr>settled = None, startupErrorReceived = False\<rparr>"

definition startup_reject :: "startup \<Rightarrow> spawn_error \<Rightarrow> startup" where
  "startup_reject s e = (case settled s of None \<Rightarrow> s\<lparr>settled := Some (Inl e)\<rparr> | Some r \<Rightarrow> s)"

definition startup_resolve :: "startup \<Rightarrow> startup" where
  "startup_resolve s = (case settled s of None \<Rightarrow> s\<lparr>settled := Some (Inr ())\<rparr> | Some r \<Rightarrow> s)"

text \<open>\<^verbatim>\<open>String.prototype.includes\<close>.\<close>

fun str_includes :: "string \<Rightarrow> string \<Rightarrow> bool" where
  "str_includes [] pat = (pat = [])"
| "str_includes (c # cs) pat = (strip_prefix pat (c # cs) \<noteq> None \<or> str_includes cs pat)"

definition fatal_output :: "string \<Rightarrow> bool" where
  "fatal_output output \<longleftrightarrow>
     str_includes output ''ENOENT'' \<or> str_includes output ''command not found''
     \<or> str_includes output ''Error: Cannot find module''"

text \<open>The handlers of \<^verbatim>\<open>error\<close>, \<^verbatim>\<open>exit\<close>, stdout \<^verbatim>\<open>data\<close> and stderr \<^verbatim>\<open>data\<close>.\<close>

fun on_event :: "startup \<Rightarrow> startup_event \<Rightarrow> startup" where
  "on_event s (ErrorEvent m) = startup_reject (s\<lparr>startupErrorReceived := True\<rparr>) (SpawnFailed m)"
| "on_event s (ExitEvent code) =
     (case code of
        None \<Rightarrow> s
      | Some c \<Rightarrow>
          if c \<noteq> 0 then
            (if \<not> startupErrorReceived s
             then (startup_reject s (ExitedWithCode c))\<lparr>startupErrorReceived := True\<rparr>
             else s)
          else s)"
| "on_event s (StdoutData output) = s"
| "on_event s (StderrData output) =
     (if fatal_output output then
        (if \<not> startupErrorReceived s
         then (startup_reject s (StartupError (trim output)))\<lparr>startupErrorReceived := True\<rparr>
         else s)
      else s)"

text \<open>The timer callback, given \<^verbatim>\<open>mcpProcess.killed\<close>.\<close>

definition on_timer :: "bool \<Rightarrow> startup \<Rightarrow> startup" where
  "on_timer process_killed s =
     (if process_killed then startup_reject s KilledDuringStartup
      else if startupErrorReceived s then s
      else startup_resolve s)"

text \<open>
  \<^verbatim>\<open>spawnMCPProcess(command, args)\<close> for a child with the given events before the timer.
  Nothing calls \<^verbatim>\<open>kill\<close> on the child before the promise hands it out, so
  \<^verbatim>\<open>mcpProcess.killed\<close> is false at the timer. The result is the state of the promise after
  the timer callback.
\<close>

definition spawnMCPProcess :: "string \<Rightarrow> startup_event list \<Rightarrow> (spawn_error + unit) option" where
  "spawnMCPProcess command events =
     (if command = [] then Some (Inl NoCommand)
      else settled (on_timer False (foldl on_event startup_begin events)))"

text \<open>
  The events whose handler rejects a pending promise, and the error each one rejects it
  with.
\<close>

fun rejects :: "startup_event \<Rightarrow> spawn_error option" where
  "rejects (ErrorEvent m) = Some (SpawnFailed m)"
| "rejects (ExitEvent None) = None"
| "rejects (ExitEvent (Some c)) = (if c \<noteq> 0 then Some (ExitedWithCode c) else None)"
| "rejects (StdoutData output) = None"
| "rejects (StderrData output) =
     (if fatal_output output then Some (StartupError (trim output)) else None)"

fun first_rejection :: "startup_event list \<Rightarrow> spawn_error option" where
  "first_rejection [] = None"
| "first_rejection (e # es) = (case rejects e of Some err \<Rightarrow> Some err | None \<Rightarrow> first_rejection es)"

definition has_exited :: "startup_event list \<Rightarrow> bool" where
  "has_exited events = list_ex (\<lambda>e. case e of ExitEvent code \<Rightarrow> True | _ \<Rightarrow> False) events"

section \<open>The connection registry: \<^verbatim>\<open>getOrCreateClient\<close> and \<^verbatim>\<open>cleanupClients\<close>\<close>

text \<open>
  Child processes and connections are objects that several places refer to, so they live in
  two stores and are referred to by their index. Of a \<^verbatim>\<open>ChildProcess\<close> the model keeps
  whether the process has exited and the flag \<^verbatim>\<open>killed\<close>. A connection
  \<^verbatim>\<open>{client, transport}\<close> is the process of its transport and \<^verbatim>\<open>client.isConnected\<close>.
  \<open>activeClients\<close> and \<open>activeProcesses\<close> are the two module-level \<^verbatim>\<open>Map\<close>s. \<open>errlog\<close> is what
  the \<^verbatim>\<open>catch\<close> blocks of the cleanup wrote with \<^verbatim>\<open>console.error\<close>.
\<close>

record proc =
  p_exited :: bool
  p_killed :: bool

record connection =
  c_process :: nat
  c_connected :: bool

record registry =
  activeClients :: "(string \<times> nat) list"
  activeProcesses :: "(string \<times> nat) list"
  connections :: "connection list"
  processes :: "proc list"
  errlog :: "string list"

definition empty_registry :: registry where
  "empty_registry =
     \<lparr>activeClients = [], activeProcesses = [], connections = [], processes = [], errlog = []\<rparr>"

text \<open>
  \<^verbatim>\<open>process.kill()\<close>. It throws for the processes listed in \<open>failing\<close> (the operating system
  refuses the signal); it returns false and leaves \<^verbatim>\<open>killed\<close> alone when the process has
  exited already; otherwise the signal is sent and \<^verbatim>\<open>killed\<close> becomes true.
\<close>

definition kill :: "nat list \<Rightarrow> proc list \<Rightarrow> nat \<Rightarrow> string + proc list" where
  "kill failing ps pid =
     (if pid \<in> set failing then Inl ''kill failed''
      else if pid < length ps \<and> \<not> p_exited (ps ! pid) then Inr (ps[pid := (ps ! pid)\<lparr>p_killed := True\<rparr>])
      else Inr ps)"

text \<open>
  \<^verbatim>\<open>if (process && !process.killed) process.kill()\<close>, the body of \<^verbatim>\<open>transport.close()\<close> and of
  the second loop of the cleanup.
\<close>

definition kill_unless_killed :: "nat list \<Rightarrow> proc list \<Rightarrow> nat \<Rightarrow> string + proc list" where
  "kill_unless_killed failing ps pid =
     (if pid < length ps \<and> \<not> p_killed (ps ! pid) then kill failing ps pid else Inr ps)"

text \<open>
  What the world decides in one call of \<^verbatim>\<open>getOrCreateClient\<close>: the events of the child that
  a spawn would start, the processes on which \<^verbatim>\<open>kill\<close> throws, and the errors with which the
  \<^verbatim>\<open>try\<close> blocks around the transport's constructor and around \<^verbatim>\<open>client.connect\<close> are left,
  if they are. With the classes of this repository and a process from \<^verbatim>\<open>spawnMCPProcess\<close>
  neither of the two throws; the \<^verbatim>\<open>catch\<close> blocks are modelled as they are written.
\<close>

record world =
  child_events :: "startup_event list"
  kill_failing :: "nat list"
  transport_error :: "string option"
  connect_error :: "string option"

text \<open>
  How a call of \<^verbatim>\<open>getOrCreateClient\<close> can end without a connection: with one of the three
  errors it throws (\<^verbatim>\<open>Failed to create MCP process: ...\<close>,
  \<^verbatim>\<open>Failed to create MCP transport: ...\<close>, the error of \<^verbatim>\<open>client.connect\<close> thrown again),
  or not at all, should the promise it awaits never settle (\<open>spawn_settles\<close> below shows
  that the promise of \<^verbatim>\<open>spawnMCPProcess\<close> always does).
\<close>

datatype bridge_error =
    FailedToCreateProcess spawn_error
  | FailedToCreateTransport string
  | ConnectFailed string
  | NeverSettles

text \<open>\<^verbatim>\<open>serverId || serverCommand\<close>, with \<^verbatim>\<open>serverCommand\<close> for a missing \<^verbatim>\<open>serverId\<close>.\<close>

definition clientKey :: "string option \<Rightarrow> string \<Rightarrow> string" where
  "clientKey serverId serverCommand =
     (case serverId of None \<Rightarrow> serverCommand | Some s \<Rightarrow> if s \<noteq> [] then s else serverCommand)"

text \<open>
  \<^verbatim>\<open>getOrCreateClient\<close> is an \<^verbatim>\<open>async\<close> function with two \<^verbatim>\<open>await\<close>s, at
  \<^verbatim>\<open>await spawnMCPProcess(...)\<close> and at \<^verbatim>\<open>await client.connect(transport)\<close>. At each of
  them the call is suspended and whatever else is due runs, other calls of
  \<^verbatim>\<open>getOrCreateClient\<close> among it, before the call goes on. A call is therefore in one of
  three states: suspended at the first \<^verbatim>\<open>await\<close>, with its key, the process that \<^verbatim>\<open>spawn\<close>
  made and what the promise of \<^verbatim>\<open>spawnMCPProcess\<close> comes to (\<open>None\<close> if it never settles);
  suspended at the second, with its key and the process of its transport; or finished, with
  the error thrown or the connection returned.
\<close>

datatype call =
    AwaitSpawn string nat "(spawn_error + unit) option"
  | AwaitConnect string nat
  | Returned "bridge_error + nat"

text \<open>
  From the \<^verbatim>\<open>try\<close> around the transport's constructor to \<^verbatim>\<open>await client.connect(transport)\<close>.
\<close>

definition create_transport :: "world \<Rightarrow> registry \<Rightarrow> string \<Rightarrow> nat \<Rightarrow> call \<times> registry" where
  "create_transport w st key processToUse =
     (case transport_error w of
        Some m \<Rightarrow> (Returned (Inl (FailedToCreateTransport m)), st)
      | None \<Rightarrow> (AwaitConnect key processToUse, st))"

text \<open>
  The call up to its first \<^verbatim>\<open>await\<close>. A key in \<open>activeClients\<close> ends the call. A key in
  \<open>activeProcesses\<close> takes the call past the first \<^verbatim>\<open>try\<close> without an \<^verbatim>\<open>await\<close>. Otherwise
  \<^verbatim>\<open>spawnMCPProcess\<close> is called: without a command it throws before \<^verbatim>\<open>spawn\<close>; with one,
  the new process enters the store of processes (with what it will have done by the time the
  promise settles), and neither \<^verbatim>\<open>Map\<close> is written before the call is resumed.
\<close>

definition getOrCreateClient_begin ::
  "world \<Rightarrow> registry \<Rightarrow> string \<Rightarrow> string list \<Rightarrow> string option \<Rightarrow> call \<times> registry" where
  "getOrCreateClient_begin w st serverCommand serverArgs serverId =
     (let key = clientKey serverId serverCommand
      in case map_of (activeClients st) key of
           Some c \<Rightarrow> (Returned (Inr c), st)
         | None \<Rightarrow>
             (case map_of (activeProcesses st) key of
                Some processToUse \<Rightarrow> create_transport w st key processToUse
              | None \<Rightarrow>
                  (AwaitSpawn key (length (processes st))
                     (spawnMCPProcess serverCommand (child_events w)),
                   if serverCommand = [] then st
                   else st\<lparr>processes := processes st
                             @ [\<lparr>p_exited = has_exited (child_events w), p_killed = False\<rparr>]\<rparr>)))"

text \<open>
  The call from an \<^verbatim>\<open>await\<close> to the next, or to its end, in the registry as it is when the
  call is resumed. After the first \<^verbatim>\<open>await\<close>: the rejection is thrown wrapped, or
  \<^verbatim>\<open>activeProcesses.set(clientKey, processToUse)\<close> runs and the transport is made. After the
  second: the connection is stored in \<open>activeClients\<close> and returned, or, in the \<^verbatim>\<open>catch\<close>,
  the transport is closed and the error thrown again.
\<close>

fun getOrCreateClient_resume :: "world \<Rightarrow> registry \<Rightarrow> call \<Rightarrow> call \<times> registry" where
  "getOrCreateClient_resume w st (AwaitSpawn key processToUse None) =
     (AwaitSpawn key processToUse None, st)"
| "getOrCreateClient_resume w st (AwaitSpawn key processToUse (Some (Inl processError))) =
     (Returned (Inl (FailedToCreateProcess processError)), st)"
| "getOrCreateClient_resume w st (AwaitSpawn key processToUse (Some (Inr u))) =
     create_transport w (st\<lparr>activeProcesses := map_set (activeProcesses st) key processToUse\<rparr>)
       key processToUse"
| "getOrCreateClient_resume w st (AwaitConnect key processToUse) =
     (case connect_error w of
        Some m \<Rightarrow>
          (Returned (Inl (ConnectFailed m)),
           case kill_unless_killed (kill_failing w) (processes st) processToUse of
             Inl closeError \<Rightarrow> st
           | Inr ps \<Rightarrow> st\<lparr>processes := ps\<rparr>)
      | None \<Rightarrow>
          (Returned (Inr (length (connections st))),
           st\<lparr>connections := connections st @ [\<lparr>c_process = processToUse, c_connected = True\<rparr>],
              activeClients := map_set (activeClients st) key (length (connections st))\<rparr>))"
| "getOrCreateClient_resume w st (Returned r) = (Returned r, st)"

text \<open>
  \<^verbatim>\<open>getOrCreateClient(serverCommand, serverArgs, serverId)\<close> when nothing else touches the
  registry between its call and its return: the call is resumed at once at each of its two
  \<^verbatim>\<open>await\<close>s. The result is the error thrown, or the connection returned.
\<close>

definition getOrCreateClient ::
  "world \<Rightarrow> registry \<Rightarrow> string \<Rightarrow> string list \<Rightarrow> string option
     \<Rightarrow> (bridge_error + nat) \<times> registry" where
  "getOrCreateClient w st serverCommand serverArgs serverId =
     (let (c1, st1) = getOrCreateClient_begin w st serverCommand serverArgs serverId;
          (c2, st2) = getOrCreateClient_resume w st1 c1;
          (c3, st3) = getOrCreateClient_resume w st2 c2
      in case c3 of
           Returned r \<Rightarrow> (r, st3)
         | _ \<Rightarrow> (Inl NeverSettles, st3))"

text \<open>
  Several calls on one registry. \<open>Call\<close> makes a call, which runs up to its first \<^verbatim>\<open>await\<close>
  and is then the last in the list of calls; \<open>Resume n\<close> takes call number \<open>n\<close> of that
  list from the \<^verbatim>\<open>await\<close> at which it is suspended to the next, or to its end.
\<close>

datatype action =
    Call string "string list" "string option"
  | Resume nat

fun act :: "world \<Rightarrow> registry \<times> call list \<Rightarrow> action \<Rightarrow> registry \<times> call list" where
  "act w (st, calls) (Call serverCommand serverArgs serverId) =
     (case getOrCreateClient_begin w st serverCommand serverArgs serverId of
        (c, st1) \<Rightarrow> (st1, calls @ [c]))"
| "act w (st, calls) (Resume n) =
     (if n < length calls then
        (case getOrCreateClient_resume w st (calls ! n) of
           (c, st1) \<Rightarrow> (st1, calls[n := c]))
      else (st, calls))"

definition interleaved :: "world \<Rightarrow> registry \<Rightarrow> action list \<Rightarrow> registry \<times> call list" where
  "interleaved w st actions = foldl (act w) (st, []) actions"

text \<open>
  The first \<^verbatim>\<open>try\<close> block of a call that is resumed at once: the process stored under the
  key, or a new one, which enters \<open>activeProcesses\<close> when the promise resolves.
\<close>

definition obtain_process ::
  "world \<Rightarrow> registry \<Rightarrow> string \<Rightarrow> string \<Rightarrow> (bridge_error + nat) \<times> registry" where
  "obtain_process w st key serverCommand =
     (case map_of (activeProcesses st) key of
        Some pid \<Rightarrow> (Inr pid, st)
      | None \<Rightarrow>
          (case spawnMCPProcess serverCommand (child_events w) of
             None \<Rightarrow> (Inl NeverSettles, st)
           | Some (Inl e) \<Rightarrow>
               (Inl (FailedToCreateProcess e),
                if serverCommand = [] then st
                else st\<lparr>processes := processes st
                          @ [\<lparr>p_exited = has_exited (child_events w), p_killed = False\<rparr>]\<rparr>)
           | Some (Inr u) \<Rightarrow>
               (Inr (length (processes st)),
                st\<lparr>processes := processes st
                       @ [\<lparr>p_exited = has_exited (child_events w), p_killed = False\<rparr>],
                   activeProcesses := map_set (activeProcesses st) key (length (processes st))\<rparr>)))"

text \<open>The two loops of \<^verbatim>\<open>cleanupClients\<close>, each body inside its \<^verbatim>\<open>try\<close>.\<close>

definition close_connection :: "nat list \<Rightarrow> registry \<Rightarrow> string \<times> nat \<Rightarrow> registry" where
  "close_connection failing st entry =
     (if snd entry < length (connections st) then
        (case kill_unless_killed failing (processes st) (c_process (connections st ! snd entry)) of
           Inl err \<Rightarrow> st\<lparr>errlog := errlog st @ [err]\<rparr>
         | Inr ps \<Rightarrow> st\<lparr>processes := ps\<rparr>)
      else st\<lparr>errlog := errlog st @ [''TypeError'']\<rparr>)"

definition terminate_process :: "nat list \<Rightarrow> registry \<Rightarrow> string \<times> nat \<Rightarrow> registry" where
  "terminate_process failing st entry =
     (case kill_unless_killed failing (processes st) (snd entry) of
        Inl err \<Rightarrow> st\<lparr>errlog := errlog st @ [err]\<rparr>
      | Inr ps \<Rightarrow> st\<lparr>processes := ps\<rparr>)"

text \<open>
  \<^verbatim>\<open>cleanupClients()\<close>. Every operation that can throw sits inside a \<^verbatim>\<open>try\<close> whose \<^verbatim>\<open>catch\<close>
  logs; \<open>Inl\<close> would be an error that leaves the function.
\<close>

definition cleanupClients :: "nat list \<Rightarrow> registry \<Rightarrow> string + registry" where
  "cleanupClients failing st =
     (let st1 = foldl (close_connection failing) st (activeClients st);
          st2 = st1\<lparr>activeClients := []\<rparr>;
          st3 = foldl (terminate_process failing) st2 (activeProcesses st2)
      in Inr (st3\<lparr>activeProcesses := []\<rparr>))"

text \<open>
  The references of a registry point into its stores. Every registry that the two
  operations make from the empty one is of this kind.
\<close>

definition registry_ok :: "registry \<Rightarrow> bool" where
  "registry_ok st \<longleftrightarrow>
     list_all (\<lambda>e. snd e < length (connections st)) (activeClients st) \<and>
     list_all (\<lambda>e. snd e < length (processes st)) (activeProcesses st) \<and>
     list_all (\<lambda>c. c_process c < length (processes st)) (connections st)"

section \<open>The facade: \<^verbatim>\<open>handleFetchMCPCapabilities\<close>\<close>




text \<open>
  The object that the handler returns: the two lists, and \<^verbatim>\<open>error\<close>, which is \<^verbatim>\<open>null\<close>
  (\<open>None\<close>) or holds the error that was caught. (The object also carries \<^verbatim>\<open>serverId\<close>.)
\<close>

datatype fetch_error = CommandRequired | BridgeError bridge_error

record capabilities =
  tools :: "json list"
  prompts :: "json list"
  error :: "fetch_error option"


section \<open>States and worlds for the examples\<close>

text \<open>A child that does nothing before the timer, and no failure anywhere.\<close>

definition quiet_world :: world where
  "quiet_world = \<lparr>child_events = [], kill_failing = [], transport_error = None, connect_error = None\<rparr>"

text \<open>The registry after two servers were connected, one after the other.\<close>

definition two_servers :: registry where
  "two_servers =
     snd (getOrCreateClient quiet_world
            (snd (getOrCreateClient quiet_world empty_registry ''node'' [''a.js''] (Some ''a'')))
            ''node'' [''b.js''] (Some ''b''))"

text \<open>A process that is out of the way: it got the signal, or it had exited.\<close>

definition stopped :: "proc list \<Rightarrow> nat \<Rightarrow> bool" where
  "stopped ps pid \<longleftrightarrow> pid < length ps \<and> (p_killed (ps ! pid) \<or> p_exited (ps ! pid))"

section \<open>Facts about the framer\<close>

lemma parse_loop_empty: "parse_loop P responses [] = (responses, [])"
  by (subst parse_loop.simps) simp

lemma parse_loop_stop:
  assumes "P remaining = None" and "findEndPos remaining = None"
  shows "parse_loop P responses remaining = (responses, remaining)"
  using assms by (subst parse_loop.simps) simp

text \<open>
  The scan finds no end position exactly when no \<^verbatim>\<open>}\<close> of the text has as many \<^verbatim>\<open>{\<close> as
  \<^verbatim>\<open>}\<close> up to and including itself.
\<close>

lemma scan_braces_None_iff:
  "scan_braces i ob cb s = None \<longleftrightarrow>
     (\<forall>n. 0 < n \<and> n \<le> length s \<and> s ! (n - 1) = CHR ''}'' \<longrightarrow>
          ob + count_list (take n s) CHR ''{'' \<noteq> cb + count_list (take n s) CHR ''}'')"
proof (induction s arbitrary: i ob cb)
  case Nil
  then show ?case by auto
next
  case (Cons c cs)
  have split: "(\<forall>n. 0 < n \<and> n \<le> length (c # cs) \<and> (c # cs) ! (n - 1) = CHR ''}'' \<longrightarrow> Q n) \<longleftrightarrow>
      ((c = CHR ''}'' \<longrightarrow> Q 1) \<and>
       (\<forall>n. 0 < n \<and> n \<le> length cs \<and> cs ! (n - 1) = CHR ''}'' \<longrightarrow> Q (Suc n)))"
    (is "?L \<longleftrightarrow> ?R") for Q
  proof
    assume a: ?L
    show ?R
    proof (intro conjI allI impI)
      assume "c = CHR ''}''"
      then show "Q 1" using a [rule_format, of 1] by simp
    next
      fix n assume "0 < n \<and> n \<le> length cs \<and> cs ! (n - 1) = CHR ''}''"
      then show "Q (Suc n)" using a [rule_format, of "Suc n"] by (cases n) auto
    qed
  next
    assume b: ?R
    show ?L
    proof (intro allI impI)
      fix n assume h: "0 < n \<and> n \<le> length (c # cs) \<and> (c # cs) ! (n - 1) = CHR ''}''"
      show "Q n"
      proof (cases n)
        case 0
        with h show ?thesis by simp
      next
        case (Suc m)
        show ?thesis
        proof (cases m)
          case 0
          with Suc h b show ?thesis by simp
        next
          case (Suc k)
          with \<open>n = Suc m\<close> h b show ?thesis by auto
        qed
      qed
    qed
  qed
  show ?case
    by (subst split) (auto simp: Let_def Cons.IH)
qed

lemma findEndPos_None_iff:
  "findEndPos s = None \<longleftrightarrow>
     (\<forall>n. 0 < n \<and> n \<le> length s \<and> s ! (n - 1) = CHR ''}'' \<longrightarrow>
          count_list (take n s) CHR ''{'' \<noteq> count_list (take n s) CHR ''}'')"
  unfolding findEndPos_def by (simp add: scan_braces_None_iff)

subsection \<open>Streams cut at object boundaries\<close>

text \<open>\<^verbatim>\<open>trim\<close> in two halves, and what it does to a text of lines.\<close>

lemma trim_rstrip: "trim s = rstrip (dropWhile is_space s)"
  by (simp add: trim_def rstrip_def)

lemma trim_hd: "s \<noteq> [] \<Longrightarrow> \<not> is_space (hd s) \<Longrightarrow> trim s = rstrip s"
  by (cases s) (simp_all add: trim_rstrip)

lemma rstrip_append:
  assumes "\<exists>x\<in>set b. \<not> is_space x"
  shows "rstrip (a @ b) = a @ rstrip b"
proof -
  from assms obtain x where "x \<in> set (rev b)" "\<not> is_space x" by auto
  then have "dropWhile is_space (rev b @ rev a) = dropWhile is_space (rev b) @ rev a"
    by (rule dropWhile_append1)
  then show ?thesis by (simp add: rstrip_def)
qed


lemma rstrip_idem: "rstrip (rstrip s) = rstrip s"
  by (simp add: rstrip_def dropWhile_idem)

lemma rstrip_decomp: "\<exists>w. s = rstrip s @ w \<and> (\<forall>x\<in>set w. is_space x)"
proof -
  have "rev s = takeWhile is_space (rev s) @ dropWhile is_space (rev s)" by simp
  then have "s = rev (dropWhile is_space (rev s)) @ rev (takeWhile is_space (rev s))"
    by (metis rev_append rev_rev_ident)
  moreover have "\<forall>x\<in>set (rev (takeWhile is_space (rev s))). is_space x"
    by (auto dest: set_takeWhileD)
  ultimately show ?thesis unfolding rstrip_def by blast
qed

lemma trim_spaces_left:
  assumes "\<forall>x\<in>set w. is_space x"
  shows "trim (w @ s) = trim s"
proof -
  have "dropWhile is_space (w @ s) = dropWhile is_space s"
    by (rule dropWhile_append2) (use assms in blast)
  then show ?thesis by (simp only: trim_def)
qed

lemma rstrip_hd: "s \<noteq> [] \<Longrightarrow> \<not> is_space (hd s) \<Longrightarrow> rstrip s \<noteq> [] \<and> hd (rstrip s) = hd s"
proof -
  assume a: "s \<noteq> []" "\<not> is_space (hd s)"
  obtain w where w: "s = rstrip s @ w" "\<forall>x\<in>set w. is_space x" using rstrip_decomp by blast
  have ne: "rstrip s \<noteq> []"
  proof
    assume "rstrip s = []"
    with w have "s = w" by simp
    with a w(2) show False by (cases s) auto
  qed
  moreover from ne w(1) have "hd s = hd (rstrip s)" by (metis hd_append2)
  ultimately show ?thesis by simp
qed

lemma trim_idem: "trim (trim s) = trim s"
proof (cases "dropWhile is_space s = []")
  case True
  have t: "trim s = []" by (simp only: trim_def True rev.simps dropWhile.simps)
  have "trim [] = []" by (simp add: trim_def)
  then show ?thesis by (simp only: t)
next
  case False
  let ?d = "dropWhile is_space s"
  have h: "\<not> is_space (hd ?d)" using False by (rule hd_dropWhile)
  have t: "trim s = rstrip ?d" by (rule trim_rstrip)
  from rstrip_hd [OF False h] have "rstrip ?d \<noteq> []" "\<not> is_space (hd (rstrip ?d))"
    using h by simp_all
  then have "trim (rstrip ?d) = rstrip (rstrip ?d)" by (rule trim_hd)
  then show ?thesis by (simp add: t rstrip_idem)
qed

lemma scan_braces_append:
  "scan_braces i ob cb s = Some e \<Longrightarrow> scan_braces i ob cb (s @ r) = Some e"
  by (induction s arbitrary: i ob cb) (auto simp: Let_def split: if_splits)

lemma findEndPos_append: "findEndPos s = Some e \<Longrightarrow> findEndPos (s @ r) = Some e"
  unfolding findEndPos_def by (rule scan_braces_append)

lemma concat_lines_hd:
  assumes "us \<noteq> []" and "\<forall>u\<in>set us. line_ok P u"
  shows "concat us \<noteq> [] \<and> \<not> is_space (hd (concat us))"
proof (cases us)
  case Nil with assms show ?thesis by simp
next
  case (Cons u vs)
  with assms(2) have "u \<noteq> []" "\<not> is_space (hd u)" by (simp_all add: line_ok_def)
  with Cons show ?thesis by simp
qed

lemma trim_lines_Cons:
  assumes u: "line_ok P u" and vs: "vs \<noteq> []" "\<forall>v\<in>set vs. line_ok P v"
  shows "\<exists>w. trim (concat (u # vs)) = trim u @ w @ trim (concat vs) \<and> (\<forall>x\<in>set w. is_space x)"
proof -
  from u have une: "u \<noteq> []" and uhd: "\<not> is_space (hd u)" by (simp_all add: line_ok_def)
  from concat_lines_hd [OF vs] have cne: "concat vs \<noteq> []" and chd: "\<not> is_space (hd (concat vs))"
    by simp_all
  then have ex: "\<exists>x\<in>set (concat vs). \<not> is_space x" by (metis hd_in_set)
  have "trim (concat (u # vs)) = rstrip (u @ concat vs)"
    using une uhd by (simp add: trim_hd)
  also have "\<dots> = u @ rstrip (concat vs)" using ex by (rule rstrip_append)
  also have "rstrip (concat vs) = trim (concat vs)" using cne chd by (simp add: trim_hd)
  finally have eq: "trim (concat (u # vs)) = u @ trim (concat vs)" .
  obtain w where w: "u = rstrip u @ w" "\<forall>x\<in>set w. is_space x" using rstrip_decomp by blast
  have "rstrip u = trim u" using une uhd by (simp add: trim_hd)
  with w have "u = trim u @ w" by simp
  with eq have "trim (concat (u # vs)) = trim u @ w @ trim (concat vs)" by (metis append_assoc)
  with w(2) show ?thesis by blast
qed

lemma parse_loop_lines:
  assumes "\<forall>u\<in>set us. line_ok P u" and "multi_fails P us"
  shows "fst (parse_loop P acc (trim (concat us))) = acc @ map (\<lambda>u. the (P (trim u))) us"
  using assms
proof (induction us arbitrary: acc)
  case Nil
  then show ?case by (simp add: trim_def parse_loop_empty)
next
  case (Cons u vs)
  from Cons.prems have u: "line_ok P u" by simp
  then obtain j where j: "P (trim u) = Some j" by (auto simp: line_ok_def)
  from u have e: "findEndPos (trim u) = Some (length (trim u))" by (simp add: line_ok_def)
  then have tne: "trim u \<noteq> []" using findEndPos_pos by fastforce
  show ?case
  proof (cases vs)
    case Nil
    then show ?thesis using j tne by (subst parse_loop.simps) simp
  next
    case (Cons v ws)
    then have vne: "vs \<noteq> []" by simp
    from Cons.prems have vok: "\<forall>v\<in>set vs. line_ok P v" by simp
    from Cons.prems Cons have fail: "P (trim (concat (u # vs))) = None" and mf: "multi_fails P vs"
      by simp_all
    obtain w where w: "trim (concat (u # vs)) = trim u @ w @ trim (concat vs)"
        "\<forall>x\<in>set w. is_space x"
      using trim_lines_Cons [OF u vne vok] by blast
    have ep: "findEndPos (trim (concat (u # vs))) = Some (length (trim u))"
      unfolding w(1) using e by (rule findEndPos_append)
    have tk: "take (length (trim u)) (trim (concat (u # vs))) = trim u"
      unfolding w(1) by simp
    have dr: "trim (drop (length (trim u)) (trim (concat (u # vs)))) = trim (concat vs)"
      unfolding w(1) using w(2) by (simp add: trim_spaces_left trim_idem)
    have ne: "0 < length (trim (concat (u # vs)))" unfolding w(1) using tne by simp
    have "parse_loop P acc (trim (concat (u # vs))) = parse_loop P (acc @ [j]) (trim (concat vs))"
      by (subst parse_loop.simps) (simp only: ne fail ep tk dr j if_True option.case)
    then show ?thesis using Cons.IH [OF vok mf, of "acc @ [j]"] j by simp
  qed
qed


section \<open>Facts about the transport\<close>

lemma map_of_map_set: "map_of (map_set ps k v) = (map_of ps)(k \<mapsto> v)"
  by (induction ps) auto

lemma set_map_set_sub: "set (map_set ps k v) \<subseteq> insert (k, v) (set ps)"
  by (induction ps) (auto split: if_splits)

lemma in_map_set:
  "distinct (map fst ps) \<Longrightarrow> x \<in> set (map_set ps k v) \<Longrightarrow> x = (k, v) \<or> (x \<in> set ps \<and> fst x \<noteq> k)"
proof (induction ps)
  case Nil
  then show ?case by simp
next
  case (Cons a ps)
  show ?case
  proof (cases "fst a = k")
    case True
    with Cons.prems show ?thesis by (cases a) force
  next
    case False
    with Cons show ?thesis by (cases a) auto
  qed
qed

lemma fst_map_set:
  "map fst (map_set ps k v) = (if k \<in> fst ` set ps then map fst ps else map fst ps @ [k])"
proof (induction ps)
  case Nil
  then show ?case by simp
next
  case (Cons a ps)
  then show ?case by (cases a) (auto simp: image_iff)
qed

lemma distinct_fst_map_set: "distinct (map fst ps) \<Longrightarrow> distinct (map fst (map_set ps k v))"
  by (simp add: fst_map_set)

lemma distinct_snd_map_set:
  "distinct (map snd ps) \<Longrightarrow> v \<notin> snd ` set ps \<Longrightarrow> distinct (map snd (map_set ps k v))"
proof (induction ps)
  case Nil
  then show ?case by simp
next
  case (Cons a ps)
  have sub: "snd ` set (map_set ps k v) \<subseteq> insert v (snd ` set ps)"
    using set_map_set_sub [of ps k v] by force
  from Cons show ?case using sub by (cases a) (auto simp: image_iff)
qed

lemma set_map_delete: "set (map_delete ps k) = {x \<in> set ps. fst x \<noteq> k}"
  by (auto simp: map_delete_def)

lemma map_of_map_delete: "map_of (map_delete ps k) = (map_of ps)(k := None)"
  by (induction ps) (auto simp: map_delete_def)

lemma distinct_fst_map_delete: "distinct (map fst ps) \<Longrightarrow> distinct (map fst (map_delete ps k))"
  by (simp add: map_delete_def distinct_map_filter)

lemma distinct_snd_map_delete: "distinct (map snd ps) \<Longrightarrow> distinct (map snd (map_delete ps k))"
  by (simp add: map_delete_def distinct_map_filter)

lemma settle_length: "length (settle p out ps) = length ps"
  by (simp add: settle_def)

lemma settle_other: "q \<noteq> p \<Longrightarrow> settle p out ps ! q = ps ! q"
  by (simp add: settle_def)

lemma settle_pending: "p < length ps \<Longrightarrow> ps ! p = Pending \<Longrightarrow> settle p out ps ! p = out"
  by (simp add: settle_def)

lemma inv_new: "transport_inv new_transport"
  by (simp add: transport_inv_def new_transport_def)

text \<open>Removing the handler of a key and settling a promise that no other key holds.\<close>

lemma inv_delete_settle:
  assumes inv: "transport_inv st"
    and pair: "\<forall>h\<in>set (responseHandlers st). snd h = p \<longrightarrow> fst h = k"
  shows "transport_inv (st\<lparr>responseHandlers := map_delete (responseHandlers st) k,
                            promises := settle p out (promises st)\<rparr>)"
proof -
  have other: "settle p out (promises st) ! snd h = Pending"
    if "h \<in> set (responseHandlers st)" "fst h \<noteq> k" for h
  proof -
    from that pair have "snd h \<noteq> p" by blast
    then have "settle p out (promises st) ! snd h = promises st ! snd h" by (rule settle_other)
    with inv that(1) show ?thesis by (simp add: transport_inv_def)
  qed
  show ?thesis
    using inv other unfolding transport_inv_def
    by (simp add: set_map_delete settle_length distinct_fst_map_delete distinct_snd_map_delete)
qed

lemma handler_pair:
  assumes inv: "transport_inv st" and m: "map_of (responseHandlers st) k = Some p"
  shows "\<forall>h\<in>set (responseHandlers st). snd h = p \<longrightarrow> fst h = k"
proof (intro ballI impI)
  fix h assume h: "h \<in> set (responseHandlers st)" "snd h = p"
  from m have "(k, p) \<in> set (responseHandlers st)" by (rule map_of_SomeD)
  moreover from inv have "distinct (map snd (responseHandlers st))" by (simp add: transport_inv_def)
  ultimately show "fst h = k" using h
    by (metis distinct_map inj_onD prod.collapse snd_conv fst_conv)
qed

lemma inv_timeout:
  assumes inv: "transport_inv st" and tm: "(d, k, p) \<in> set (timers st)"
  shows "transport_inv (timeout_callback st k p)"
proof (cases "map_of (responseHandlers st) k")
  case None
  with inv show ?thesis by (simp add: timeout_callback_def)
next
  case (Some q)
  have "\<forall>h\<in>set (responseHandlers st). snd h = p \<longrightarrow> fst h = k"
    using inv tm unfolding transport_inv_def by force
  from inv_delete_settle [OF inv this] Some show ?thesis by (simp add: timeout_callback_def)
qed

lemma timeout_fields:
  "timers (timeout_callback st k p) = timers st \<and> writes (timeout_callback st k p) = writes st \<and>
   killed (timeout_callback st k p) = killed st \<and> now (timeout_callback st k p) = now st \<and>
   lastRequestId (timeout_callback st k p) = lastRequestId st \<and>
   written (timeout_callback st k p) = written st"
  by (simp add: timeout_callback_def)

lemma inv_timeouts:
  assumes "transport_inv st" and "set due \<subseteq> set (timers st)"
  shows "transport_inv (foldl (\<lambda>s tm. timeout_callback s (fst (snd tm)) (snd (snd tm))) st due) \<and>
         timers (foldl (\<lambda>s tm. timeout_callback s (fst (snd tm)) (snd (snd tm))) st due) = timers st"
  using assms
proof (induction due arbitrary: st)
  case Nil
  then show ?case by simp
next
  case (Cons tm due)
  obtain d k p where tm: "tm = (d, k, p)" by (cases tm) auto
  with Cons.prems have "(d, k, p) \<in> set (timers st)" by simp
  with Cons.prems(1) have i: "transport_inv (timeout_callback st k p)" by (rule inv_timeout)
  have t: "timers (timeout_callback st k p) = timers st" by (simp add: timeout_fields)
  with Cons.prems have "set due \<subseteq> set (timers (timeout_callback st k p))" by simp
  from Cons.IH [OF i this] t tm show ?case by simp
qed

lemma inv_timers_subset:
  assumes inv: "transport_inv st" and sub: "set ts \<subseteq> set (timers st)"
  shows "transport_inv (st\<lparr>timers := ts, now := t\<rparr>)"
proof -
  have a: "\<forall>tm\<in>set ts. snd (snd tm) < length (promises st)"
    using inv sub unfolding transport_inv_def by blast
  have b: "\<forall>h\<in>set (responseHandlers st). \<forall>tm\<in>set ts. snd (snd tm) = snd h \<longrightarrow> fst (snd tm) = fst h"
    using inv sub unfolding transport_inv_def by blast
  show ?thesis using inv a b unfolding transport_inv_def by simp
qed

lemma inv_advance: "transport_inv st \<Longrightarrow> transport_inv (advance st d)"
proof -
  assume inv: "transport_inv st"
  let ?t = "now st + d"
  let ?due = "filter (\<lambda>tm. fst tm \<le> ?t) (timers st)"
  let ?st1 = "foldl (\<lambda>s tm. timeout_callback s (fst (snd tm)) (snd (snd tm))) st ?due"
  have "transport_inv ?st1 \<and> timers ?st1 = timers st"
    by (rule inv_timeouts [OF inv]) auto
  then have "transport_inv (?st1\<lparr>timers := filter (\<lambda>tm. \<not> fst tm \<le> ?t) (timers st), now := ?t\<rparr>)"
    by (intro inv_timers_subset) auto
  then show ?thesis by (simp add: advance_def Let_def)
qed

lemma inv_write_done: "transport_inv st \<Longrightarrow> transport_inv (write_done st err)"
proof -
  assume inv: "transport_inv st"
  show ?thesis
  proof (cases "writes st")
    case Nil
    with inv show ?thesis by (simp add: write_done_def)
  next
    case (Cons w ws)
    let ?st = "st\<lparr>writes := ws\<rparr>"
    have inv': "transport_inv ?st" using inv Cons unfolding transport_inv_def by simp
    show ?thesis
    proof (cases err)
      case None
      with inv' Cons show ?thesis by (simp add: write_done_def write_callback_def)
    next
      case (Some m)
      have "\<forall>h\<in>set (responseHandlers ?st). snd h = snd w \<longrightarrow> fst h = fst w"
        using inv Cons unfolding transport_inv_def by force
      from inv_delete_settle [OF inv' this] Some Cons show ?thesis
        by (simp add: write_done_def write_callback_def)
    qed
  qed
qed

lemma inv_close: "transport_inv st \<Longrightarrow> transport_inv (close st b)"
  by (simp add: close_def transport_inv_def)

lemma assign_id_cases:
  assumes "assign_id st r = (k, st1)"
  shows "truthy (Some k)"
    and "st1 = st \<or> st1 = st\<lparr>lastRequestId := lastRequestId st + 1\<rparr>"
  using assms unfolding assign_id_def by (auto simp: Let_def split: option.splits if_splits)

lemma sendRequest_Inr:
  assumes "sendRequest st r = Inr (p, st')"
  obtains k st1 where "\<not> killed st" and "assign_id st r = (k, st1)"
    and "p = length (promises st)"
    and "st' = st1\<lparr>promises := promises st1 @ [Pending],
        responseHandlers := map_set (responseHandlers st1) k (length (promises st1)),
        written := written st1 @ [JObj (map_set (map_set r ''id'' k) ''jsonrpc'' (JStr ''2.0''))],
        writes := writes st1 @ [(k, length (promises st1))],
        timers := timers st1 @ [(now st1 + 30000, k, length (promises st1))]\<rparr>"
proof -
  obtain k st1 where a: "assign_id st r = (k, st1)" by (cases "assign_id st r") auto
  from assign_id_cases(2) [OF a] have "promises st1 = promises st" by auto
  with assms a that show ?thesis
    by (auto simp: sendRequest_def Let_def split: if_splits)
qed

lemma inv_send:
  assumes inv: "transport_inv st" and s: "sendRequest st r = Inr (p, st')"
  shows "transport_inv st'"
proof -
  from s obtain k st1 where alive: "\<not> killed st" and a: "assign_id st r = (k, st1)"
    and p: "p = length (promises st)"
    and st': "st' = st1\<lparr>promises := promises st1 @ [Pending],
        responseHandlers := map_set (responseHandlers st1) k (length (promises st1)),
        written := written st1 @ [JObj (map_set (map_set r ''id'' k) ''jsonrpc'' (JStr ''2.0''))],
        writes := writes st1 @ [(k, length (promises st1))],
        timers := timers st1 @ [(now st1 + 30000, k, length (promises st1))]\<rparr>"
    by (rule sendRequest_Inr)
  from assign_id_cases [OF a] have tk: "truthy (Some k)"
    and st1: "st1 = st \<or> st1 = st\<lparr>lastRequestId := lastRequestId st + 1\<rparr>" by blast+
  then have same: "responseHandlers st1 = responseHandlers st" "promises st1 = promises st"
    "writes st1 = writes st" "timers st1 = timers st" by auto
  let ?n = "length (promises st)"
  from inv have d1: "distinct (map fst (responseHandlers st))" and d2: "distinct (map snd (responseHandlers st))"
    and hs: "\<forall>h\<in>set (responseHandlers st). truthy (Some (fst h)) \<and> snd h < ?n \<and> promises st ! snd h = Pending"
    and ws: "\<forall>w\<in>set (writes st). snd w < ?n"
    and ts: "\<forall>tm\<in>set (timers st). snd (snd tm) < ?n"
    and pw: "\<forall>h\<in>set (responseHandlers st). \<forall>w\<in>set (writes st). snd w = snd h \<longrightarrow> fst w = fst h"
    and pt: "\<forall>h\<in>set (responseHandlers st). \<forall>tm\<in>set (timers st). snd (snd tm) = snd h \<longrightarrow> fst (snd tm) = fst h"
    unfolding transport_inv_def by blast+
  have fresh: "?n \<notin> snd ` set (responseHandlers st)" using hs by force
  have mem: "h = (k, ?n) \<or> (h \<in> set (responseHandlers st) \<and> fst h \<noteq> k)"
    if "h \<in> set (map_set (responseHandlers st) k ?n)" for h
    using in_map_set [OF d1 that] .
  have c1: "distinct (map fst (map_set (responseHandlers st) k ?n))" using d1 by (rule distinct_fst_map_set)
  have c2: "distinct (map snd (map_set (responseHandlers st) k ?n))" using d2 fresh by (rule distinct_snd_map_set)
  have c3: "\<forall>h\<in>set (map_set (responseHandlers st) k ?n).
      truthy (Some (fst h)) \<and> snd h < length (promises st @ [Pending]) \<and> (promises st @ [Pending]) ! snd h = Pending"
  proof
    fix h assume "h \<in> set (map_set (responseHandlers st) k ?n)"
    from mem [OF this] show "truthy (Some (fst h)) \<and> snd h < length (promises st @ [Pending]) \<and> (promises st @ [Pending]) ! snd h = Pending"
    proof
      assume "h = (k, ?n)" with tk show ?thesis by simp
    next
      assume "h \<in> set (responseHandlers st) \<and> fst h \<noteq> k"
      with hs show ?thesis by (auto simp: nth_append)
    qed
  qed
  have c4: "\<forall>w\<in>set (writes st @ [(k, ?n)]). snd w < length (promises st @ [Pending])"
    using ws by auto
  have c5: "\<forall>tm\<in>set (timers st @ [(now st1 + 30000, k, ?n)]). snd (snd tm) < length (promises st @ [Pending])"
    using ts by auto
  have c6: "\<forall>h\<in>set (map_set (responseHandlers st) k ?n). \<forall>w\<in>set (writes st @ [(k, ?n)]). snd w = snd h \<longrightarrow> fst w = fst h"
  proof (intro ballI impI)
    fix h w assume h: "h \<in> set (map_set (responseHandlers st) k ?n)" and w: "w \<in> set (writes st @ [(k, ?n)])" and e: "snd w = snd h"
    from mem [OF h] show "fst w = fst h"
    proof
      assume hk: "h = (k, ?n)"
      with e w ws show ?thesis by auto
    next
      assume ho: "h \<in> set (responseHandlers st) \<and> fst h \<noteq> k"
      with hs have "snd h < ?n" by blast
      with e w have "w \<in> set (writes st)" by auto
      with ho pw e show ?thesis by blast
    qed
  qed
  have c7: "\<forall>h\<in>set (map_set (responseHandlers st) k ?n). \<forall>tm\<in>set (timers st @ [(now st1 + 30000, k, ?n)]). snd (snd tm) = snd h \<longrightarrow> fst (snd tm) = fst h"
  proof (intro ballI impI)
    fix h tm assume h: "h \<in> set (map_set (responseHandlers st) k ?n)" and w: "tm \<in> set (timers st @ [(now st1 + 30000, k, ?n)])" and e: "snd (snd tm) = snd h"
    from mem [OF h] show "fst (snd tm) = fst h"
    proof
      assume hk: "h = (k, ?n)"
      with e w ts show ?thesis by auto
    next
      assume ho: "h \<in> set (responseHandlers st) \<and> fst h \<noteq> k"
      with hs have "snd h < ?n" by blast
      with e w have "tm \<in> set (timers st)" by auto
      with ho pt e show ?thesis by blast
    qed
  qed
  show ?thesis
    unfolding transport_inv_def st' using c1 c2 c3 c4 c5 c6 c7 by (simp add: same) blast
qed

lemma inv_delete:
  assumes inv: "transport_inv st"
  shows "transport_inv (st\<lparr>responseHandlers := map_delete (responseHandlers st) k\<rparr>)"
  using inv unfolding transport_inv_def
  by (simp add: set_map_delete distinct_fst_map_delete distinct_snd_map_delete)

lemma inv_response:
  assumes inv: "transport_inv st"
  shows "transport_inv (case handle_response st response of Continue s \<Rightarrow> s | TypeError s \<Rightarrow> s)"
proof -
  have del: "transport_inv (st\<lparr>responseHandlers := map_delete (responseHandlers st) rid,
                               promises := settle p out (promises st)\<rparr>)"
    if "map_of (responseHandlers st) rid = Some p" for rid p out
    using inv_delete_settle [OF inv handler_pair [OF inv that]] .
  show ?thesis
    unfolding handle_response_def
    by (auto simp: inv Let_def del inv_delete split: option.splits)
qed

lemma inv_responses: "transport_inv st \<Longrightarrow> transport_inv (handle_responses st rs)"
proof (induction rs arbitrary: st)
  case Nil
  then show ?case by simp
next
  case (Cons r rs)
  from inv_response [OF Cons.prems, of r] Cons.IH show ?case
    by (cases "handle_response st r") simp_all
qed

lemma handle_response_fields:
  "handle_response st response = Continue s \<or> handle_response st response = TypeError s \<Longrightarrow>
   killed s = killed st \<and> written s = written st \<and> lastRequestId s = lastRequestId st \<and>
   length (promises s) = length (promises st) \<and> writes s = writes st \<and> timers s = timers st \<and>
   now s = now st"
  unfolding handle_response_def
  by (auto simp: settle_length Let_def split: option.splits if_splits)

lemma handle_responses_fields:
  "killed (handle_responses st rs) = killed st \<and>
   written (handle_responses st rs) = written st \<and>
   lastRequestId (handle_responses st rs) = lastRequestId st \<and>
   length (promises (handle_responses st rs)) = length (promises st) \<and>
   writes (handle_responses st rs) = writes st \<and> timers (handle_responses st rs) = timers st \<and>
   now (handle_responses st rs) = now st"
proof (induction rs arbitrary: st)
  case Nil
  then show ?case by simp
next
  case (Cons r rs)
  show ?case
  proof (cases "handle_response st r")
    case (Continue s)
    with handle_response_fields [of st r s] Cons.IH [of s] show ?thesis by simp
  next
    case (TypeError s)
    with handle_response_fields [of st r s] show ?thesis by simp
  qed
qed

text \<open>A response that completes and whose id has a handler, in one equation.\<close>

lemma handle_response_matched:
  assumes inv: "transport_inv st" and c: "completes response"
    and rid: "get_prop response ''id'' = Some rid" "is_primitive rid"
    and m: "map_of (responseHandlers st) rid = Some p"
  shows "handle_response st response =
     Continue (st\<lparr>responseHandlers := map_delete (responseHandlers st) rid,
                  promises := (promises st)[p := outcome_of response]\<rparr>)"
proof -
  from m have mem: "(rid, p) \<in> set (responseHandlers st)" by (rule map_of_SomeD)
  with inv have t: "truthy (Some rid)" and p: "p < length (promises st)" "promises st ! p = Pending"
    unfolding transport_inv_def by force+
  from p have s: "settle p out (promises st) = (promises st)[p := out]" for out
    by (simp add: settle_def)
  show ?thesis
    unfolding handle_response_def outcome_of_def using rid m t c
    by (auto simp: s Let_def completes_def split: option.splits)
qed

text \<open>A response that is not \<^verbatim>\<open>null\<close> and whose id has no handler.\<close>

lemma handle_response_unmatched:
  assumes inv: "transport_inv st" and n: "response \<noteq> JNull"
    and u: "\<forall>rid. get_prop response ''id'' = Some rid \<and> is_primitive rid \<longrightarrow>
              map_of (responseHandlers st) rid = None"
  shows "handle_response st response = Continue st"
  unfolding handle_response_def using n u by (auto split: option.splits)

lemma falsy_no_handler:
  assumes inv: "transport_inv st" and f: "\<not> truthy (Some k)"
  shows "map_of (responseHandlers st) k = None"
proof (cases "map_of (responseHandlers st) k")
  case None
  then show ?thesis .
next
  case (Some p)
  then have "(k, p) \<in> set (responseHandlers st)" by (rule map_of_SomeD)
  with inv f show ?thesis unfolding transport_inv_def by force
qed

text \<open>What a response that completes does to the handlers.\<close>

lemma handle_response_handlers:
  assumes inv: "transport_inv st" and c: "completes response"
  shows "\<exists>s. handle_response st response = Continue s \<and>
     (\<forall>k. map_of (responseHandlers s) k =
          (if get_prop response ''id'' = Some k \<and> is_primitive k then None
           else map_of (responseHandlers st) k)) \<and>
     (\<forall>q. (\<forall>rid. get_prop response ''id'' = Some rid \<and> is_primitive rid \<longrightarrow>
                 map_of (responseHandlers st) rid \<noteq> Some q) \<longrightarrow> promises s ! q = promises st ! q) \<and>
     transport_inv s"
proof (cases "\<exists>rid p. get_prop response ''id'' = Some rid \<and> is_primitive rid \<and>
                 map_of (responseHandlers st) rid = Some p")
  case True
  then obtain rid p where r: "get_prop response ''id'' = Some rid" "is_primitive rid"
    "map_of (responseHandlers st) rid = Some p" by blast
  let ?s = "st\<lparr>responseHandlers := map_delete (responseHandlers st) rid,
                  promises := (promises st)[p := outcome_of response]\<rparr>"
  have e: "handle_response st response = Continue ?s"
    using inv c r by (rule handle_response_matched)
  have i: "transport_inv ?s" using inv_response [OF inv, of response] e by simp
  have h: "\<forall>k. map_of (responseHandlers ?s) k =
          (if get_prop response ''id'' = Some k \<and> is_primitive k then None
           else map_of (responseHandlers st) k)"
    using r by (auto simp: map_of_map_delete)
  have f: "\<forall>q. (\<forall>rid. get_prop response ''id'' = Some rid \<and> is_primitive rid \<longrightarrow>
                 map_of (responseHandlers st) rid \<noteq> Some q) \<longrightarrow> promises ?s ! q = promises st ! q"
  proof (intro allI impI)
    fix q assume "\<forall>rid. get_prop response ''id'' = Some rid \<and> is_primitive rid \<longrightarrow>
                 map_of (responseHandlers st) rid \<noteq> Some q"
    with r have "q \<noteq> p" by auto
    then show "promises ?s ! q = promises st ! q" by simp
  qed
  from e h f i show ?thesis by blast
next
  case False
  then have u: "\<forall>rid. get_prop response ''id'' = Some rid \<and> is_primitive rid \<longrightarrow>
              map_of (responseHandlers st) rid = None" by auto
  from c have n: "response \<noteq> JNull" by (simp add: completes_def)
  have e: "handle_response st response = Continue st"
    using inv n u by (rule handle_response_unmatched)
  have h: "\<forall>k. map_of (responseHandlers st) k =
          (if get_prop response ''id'' = Some k \<and> is_primitive k then None
           else map_of (responseHandlers st) k)"
    using u by auto
  from e h inv show ?thesis by blast
qed

lemma handle_responses_handlers:
  assumes "transport_inv st" and "\<forall>r\<in>set rs. completes r"
  shows "map_of (responseHandlers (handle_responses st rs)) k =
     (if (\<exists>r\<in>set rs. get_prop r ''id'' = Some k) \<and> is_primitive k then None
      else map_of (responseHandlers st) k)"
  using assms
proof (induction rs arbitrary: st)
  case Nil
  then show ?case by simp
next
  case (Cons r rs)
  from Cons.prems have c: "completes r" and cs: "\<forall>r\<in>set rs. completes r" by simp_all
  from handle_response_handlers [OF Cons.prems(1) c]
  obtain s where e: "handle_response st r = Continue s"
    and h: "\<And>k. map_of (responseHandlers s) k =
          (if get_prop r ''id'' = Some k \<and> is_primitive k then None
           else map_of (responseHandlers st) k)"
    and f: "\<And>q. (\<forall>rid. get_prop r ''id'' = Some rid \<and> is_primitive rid \<longrightarrow>
                 map_of (responseHandlers st) rid \<noteq> Some q) \<Longrightarrow> promises s ! q = promises st ! q"
    and i: "transport_inv s"
    by blast
  from Cons.IH [OF i cs] e h [of k] show ?case by auto
qed

lemma handle_responses_frame:
  assumes "transport_inv st" and "\<forall>r\<in>set rs. completes r"
    and "\<forall>r\<in>set rs. \<forall>rid. get_prop r ''id'' = Some rid \<and> is_primitive rid \<longrightarrow>
           map_of (responseHandlers st) rid \<noteq> Some q"
  shows "promises (handle_responses st rs) ! q = promises st ! q"
  using assms
proof (induction rs arbitrary: st)
  case Nil
  then show ?case by simp
next
  case (Cons r rs)
  from Cons.prems have c: "completes r" and cs: "\<forall>r\<in>set rs. completes r" by simp_all
  from handle_response_handlers [OF Cons.prems(1) c]
  obtain s where e: "handle_response st r = Continue s"
    and h: "\<And>k. map_of (responseHandlers s) k =
          (if get_prop r ''id'' = Some k \<and> is_primitive k then None
           else map_of (responseHandlers st) k)"
    and f: "\<And>q. (\<forall>rid. get_prop r ''id'' = Some rid \<and> is_primitive rid \<longrightarrow>
                 map_of (responseHandlers st) rid \<noteq> Some q) \<Longrightarrow> promises s ! q = promises st ! q"
    and i: "transport_inv s"
    by blast
  have a: "promises s ! q = promises st ! q" using Cons.prems(3) by (intro f) simp
  have "\<forall>r\<in>set rs. \<forall>rid. get_prop r ''id'' = Some rid \<and> is_primitive rid \<longrightarrow>
           map_of (responseHandlers s) rid \<noteq> Some q"
    using Cons.prems(3) h by auto
  from Cons.IH [OF i cs this] a e show ?case by simp
qed

lemma handle_responses_first:
  assumes "transport_inv st" and "\<forall>r\<in>set rs. completes r"
    and "i < length rs" and "get_prop (rs ! i) ''id'' = Some rid" and "is_primitive rid"
    and "map_of (responseHandlers st) rid = Some p"
    and "\<forall>j<i. get_prop (rs ! j) ''id'' \<noteq> Some rid"
  shows "promises (handle_responses st rs) ! p = outcome_of (rs ! i)"
  using assms
proof (induction rs arbitrary: st i)
  case Nil
  then show ?case by simp
next
  case (Cons r rs)
  from Cons.prems have c: "completes r" and cs: "\<forall>r\<in>set rs. completes r" by simp_all
  show ?case
  proof (cases i)
    case 0
    let ?s = "st\<lparr>responseHandlers := map_delete (responseHandlers st) rid,
                  promises := (promises st)[p := outcome_of r]\<rparr>"
    from 0 Cons.prems have r: "get_prop r ''id'' = Some rid" by simp
    have e: "handle_response st r = Continue ?s"
      using Cons.prems(1) c r Cons.prems(5,6) by (rule handle_response_matched)
    have inv: "transport_inv ?s" using inv_response [OF Cons.prems(1), of r] e by simp
    from Cons.prems(6) have "(rid, p) \<in> set (responseHandlers st)" by (rule map_of_SomeD)
    with Cons.prems(1) have p: "p < length (promises st)" unfolding transport_inv_def by force
    have np: "outcome_of r \<noteq> Pending" by (simp add: outcome_of_def split: option.splits)
    have "\<forall>r\<in>set rs. \<forall>rid. get_prop r ''id'' = Some rid \<and> is_primitive rid \<longrightarrow>
           map_of (responseHandlers ?s) rid \<noteq> Some p"
    proof (intro ballI allI impI notI)
      fix r' k assume "map_of (responseHandlers ?s) k = Some p"
      then have "(k, p) \<in> set (responseHandlers ?s)" by (rule map_of_SomeD)
      with inv have "promises ?s ! p = Pending" unfolding transport_inv_def by force
      with p np show False by simp
    qed
    from handle_responses_frame [OF inv cs this] e p 0 show ?thesis by simp
  next
    case (Suc j)
    with Cons.prems(7) have ne: "get_prop r ''id'' \<noteq> Some rid" by auto
    from handle_response_handlers [OF Cons.prems(1) c]
  obtain s where e: "handle_response st r = Continue s"
    and h: "\<And>k. map_of (responseHandlers s) k =
          (if get_prop r ''id'' = Some k \<and> is_primitive k then None
           else map_of (responseHandlers st) k)"
    and f: "\<And>q. (\<forall>rid. get_prop r ''id'' = Some rid \<and> is_primitive rid \<longrightarrow>
                 map_of (responseHandlers st) rid \<noteq> Some q) \<Longrightarrow> promises s ! q = promises st ! q"
    and inv: "transport_inv s"
    by blast
    from h [of rid] ne Cons.prems(6) have m: "map_of (responseHandlers s) rid = Some p" by simp
    have "promises (handle_responses s rs) ! p = outcome_of (rs ! j)"
    proof (rule Cons.IH [OF inv cs _ _ Cons.prems(5) m])
      show "j < length rs" using Suc Cons.prems(3) by simp
      show "get_prop (rs ! j) ''id'' = Some rid" using Suc Cons.prems(4) by simp
      show "\<forall>j'<j. get_prop (rs ! j') ''id'' \<noteq> Some rid"
        using Suc Cons.prems(7) by auto
    qed
    with e Suc show ?thesis by simp
  qed
qed

lemma handle_responses_unmatched:
  assumes "transport_inv st" and "\<forall>r\<in>set rs. r \<noteq> JNull"
    and "\<forall>r\<in>set rs. \<forall>rid. get_prop r ''id'' = Some rid \<and> is_primitive rid \<longrightarrow>
           map_of (responseHandlers st) rid = None"
  shows "handle_responses st rs = st"
  using assms
proof (induction rs)
  case Nil
  then show ?case by simp
next
  case (Cons r rs)
  have "handle_response st r = Continue st"
    using Cons.prems by (intro handle_response_unmatched) simp_all
  with Cons show ?case by simp
qed

lemma handle_responses_null:
  assumes "transport_inv st" and "\<forall>r\<in>set rs. completes r"
  shows "handle_responses st (rs @ JNull # rest) = handle_responses st rs"
  using assms
proof (induction rs arbitrary: st)
  case Nil
  then show ?case by (simp add: handle_response_def)
next
  case (Cons r rs)
  from Cons.prems have c: "completes r" and cs: "\<forall>r\<in>set rs. completes r" by simp_all
  from handle_response_handlers [OF Cons.prems(1) c]
  obtain s where e: "handle_response st r = Continue s"
    and h: "\<And>k. map_of (responseHandlers s) k =
          (if get_prop r ''id'' = Some k \<and> is_primitive k then None
           else map_of (responseHandlers st) k)"
    and f: "\<And>q. (\<forall>rid. get_prop r ''id'' = Some rid \<and> is_primitive rid \<longrightarrow>
                 map_of (responseHandlers st) rid \<noteq> Some q) \<Longrightarrow> promises s ! q = promises st ! q"
    and i: "transport_inv s"
    by blast
  from Cons.IH [OF i cs] e show ?case by simp
qed

lemma inv_step: "transport_inv st \<Longrightarrow> transport_inv (step P st ev)"
proof (cases ev)
  case (Send r)
  assume "transport_inv st"
  then show ?thesis using Send inv_send [of st r] by (auto split: sum.splits)
qed (simp_all add: handleProcessOutput_def inv_responses inv_write_done inv_advance inv_close)

lemma inv_run: "transport_inv st \<Longrightarrow> transport_inv (run P st evs)"
  unfolding run_def by (induction evs arbitrary: st) (simp_all add: inv_step)

lemma two_sent_handlers: "responseHandlers two_sent = [(JNum 1 0, 0), (JNum 2 0, 1)]"
  unfolding two_sent_def by code_simp

lemma two_sent_promises: "promises two_sent = [Pending, Pending]"
  unfolding two_sent_def by code_simp

lemma two_sent_inv: "transport_inv two_sent"
  unfolding two_sent_def by (intro inv_run inv_new)

text \<open>\<^verbatim>\<open>sendRequest\<close> on a process that was not killed, in one equation.\<close>

lemma sendRequest_alive:
  assumes "\<not> killed st"
  shows "\<exists>k st1. assign_id st requestObj = (k, st1) \<and>
     sendRequest st requestObj = Inr (length (promises st),
       st1\<lparr>promises := promises st @ [Pending],
           responseHandlers := map_set (responseHandlers st) k (length (promises st)),
           written := written st @ [JObj (map_set (map_set requestObj ''id'' k) ''jsonrpc'' (JStr ''2.0''))],
           writes := writes st @ [(k, length (promises st))],
           timers := timers st @ [(now st + 30000, k, length (promises st))]\<rparr>)"
proof -
  obtain k st1 where a: "assign_id st requestObj = (k, st1)" by (cases "assign_id st requestObj") auto
  from assign_id_cases(2) [OF a] have "promises st1 = promises st" "responseHandlers st1 = responseHandlers st"
    "written st1 = written st" "writes st1 = writes st" "timers st1 = timers st" "now st1 = now st" by auto
  with a assms show ?thesis by (simp add: sendRequest_def Let_def)
qed

lemma map_of_envelope: "map_of (map_set (map_set requestObj ''id'' k) ''jsonrpc'' v) ''id'' = Some k"
  by (simp add: map_of_map_set)

lemma two_sent_alive: "\<not> killed two_sent" "lastRequestId two_sent = 2"
  unfolding two_sent_def by code_simp+


text \<open>What no event but a call of \<^verbatim>\<open>sendRequest\<close> changes.\<close>

lemma timeouts_keep:
  "written (foldl (\<lambda>s tm. timeout_callback s (fst (snd tm)) (snd (snd tm))) st due) = written st \<and>
   lastRequestId (foldl (\<lambda>s tm. timeout_callback s (fst (snd tm)) (snd (snd tm))) st due)
     = lastRequestId st \<and>
   length (promises (foldl (\<lambda>s tm. timeout_callback s (fst (snd tm)) (snd (snd tm))) st due))
     = length (promises st)"
  by (induction due arbitrary: st) (simp_all add: timeout_callback_def settle_length)

lemma step_keeps:
  assumes "\<forall>r. ev \<noteq> Send r"
  shows "written (step P st ev) = written st \<and> lastRequestId (step P st ev) = lastRequestId st \<and>
         length (promises (step P st ev)) = length (promises st)"
proof (cases ev)
  case (Send r)
  with assms show ?thesis by simp
next
  case (Output chunk)
  then show ?thesis by (simp add: handleProcessOutput_def handle_responses_fields)
next
  case (WriteDone err)
  then show ?thesis
    by (simp add: write_done_def write_callback_def settle_length split: list.splits option.splits)
next
  case (Advance d)
  then show ?thesis by (simp add: advance_def Let_def timeouts_keep)
next
  case (Close b)
  then show ?thesis by (simp add: close_def)
qed

text \<open>
  As long as no caller brings an id, the requests written are numbered 1, 2, 3 and so on,
  up to the counter.
\<close>

lemma counted_step:
  assumes J: "written_ids st = map (\<lambda>i. Some (JNum (int i) 0)) [1..<Suc (lastRequestId st)]"
    "length (promises st) = length (written st)"
    and c: "counted ev"
  shows "written_ids (step P st ev)
           = map (\<lambda>i. Some (JNum (int i) 0)) [1..<Suc (lastRequestId (step P st ev))] \<and>
         length (promises (step P st ev)) = length (written (step P st ev))"
proof (cases "\<exists>r. ev = Send r")
  case False
  then have "\<forall>r. ev \<noteq> Send r" by simp
  from step_keeps [OF this, of P st] J show ?thesis by (simp add: written_ids_def)
next
  case True
  then obtain r where ev: "ev = Send r" by blast
  show ?thesis
  proof (cases "killed st")
    case True
    with ev J show ?thesis by (simp add: sendRequest_def)
  next
    case False
    from c ev have "\<not> truthy (map_of r ''id'')" by simp
    then have a: "assign_id st r =
        (JNum (int (lastRequestId st) + 1) 0, st\<lparr>lastRequestId := lastRequestId st + 1\<rparr>)"
      by (auto simp: assign_id_def Let_def add.commute split: option.splits)
    from sendRequest_alive [OF False, of r] a ev J show ?thesis
      by (simp add: written_ids_def map_of_envelope add.commute)
  qed
qed

lemma counted_run:
  assumes "written_ids st = map (\<lambda>i. Some (JNum (int i) 0)) [1..<Suc (lastRequestId st)]"
    and "length (promises st) = length (written st)"
    and "\<forall>ev\<in>set evs. counted ev"
  shows "written_ids (run P st evs)
           = map (\<lambda>i. Some (JNum (int i) 0)) [1..<Suc (lastRequestId (run P st evs))] \<and>
         length (promises (run P st evs)) = length (written (run P st evs))"
  using assms
proof (induction evs arbitrary: st)
  case Nil
  then show ?case by (simp add: run_def)
next
  case (Cons ev evs)
  from Cons.prems have c: "counted ev" and cs: "\<forall>ev\<in>set evs. counted ev" by simp_all
  from counted_step [OF Cons.prems(1,2) c, of P]
  have "written_ids (run P (step P st ev) evs)
           = map (\<lambda>i. Some (JNum (int i) 0)) [1..<Suc (lastRequestId (run P (step P st ev) evs))] \<and>
         length (promises (run P (step P st ev) evs)) = length (written (run P (step P st ev) evs))"
    by (intro Cons.IH cs) simp_all
  then show ?case by (simp add: run_def)
qed

lemma counted_distinct:
  assumes "\<forall>ev\<in>set evs. counted ev"
  shows "distinct (written_ids (run P new_transport evs)) \<and>
         length (promises (run P new_transport evs)) = length (written_ids (run P new_transport evs))"
proof -
  have "written_ids new_transport
          = map (\<lambda>i. Some (JNum (int i) 0)) [1..<Suc (lastRequestId new_transport)]"
    "length (promises new_transport) = length (written new_transport)"
    by (simp_all add: written_ids_def new_transport_def)
  from counted_run [OF this assms, of P]
  have w: "written_ids (run P new_transport evs)
           = map (\<lambda>i. Some (JNum (int i) 0)) [1..<Suc (lastRequestId (run P new_transport evs))]"
    and l: "length (promises (run P new_transport evs)) = length (written (run P new_transport evs))"
    by blast+
  have "inj_on (\<lambda>i. Some (JNum (int i) 0)) A" for A :: "nat set" by (rule inj_onI) simp
  then have "distinct (map (\<lambda>i. Some (JNum (int i) 0)) [1..<Suc (lastRequestId (run P new_transport evs))])"
    by (simp add: distinct_map)
  with w have "distinct (written_ids (run P new_transport evs))" by (simp only:)
  moreover from l have "length (promises (run P new_transport evs))
      = length (written_ids (run P new_transport evs))"
    by (simp add: written_ids_def)
  ultimately show ?thesis by blast
qed

section \<open>Facts about the supervisor and the registry\<close>

lemma startup_fold:
  assumes "startupErrorReceived s \<longleftrightarrow> settled s \<noteq> None"
    and "settled s \<noteq> Some (Inr ())"
  shows "settled (foldl on_event s events)
           = (case settled s of Some r \<Rightarrow> Some r | None \<Rightarrow> map_option Inl (first_rejection events))
         \<and> (startupErrorReceived (foldl on_event s events)
              \<longleftrightarrow> settled (foldl on_event s events) \<noteq> None)"
  using assms
proof (induction events arbitrary: s)
  case Nil
  then show ?case by (simp split: option.splits)
next
  case (Cons e es)
  have step: "(startupErrorReceived (on_event s e) \<longleftrightarrow> settled (on_event s e) \<noteq> None)
      \<and> settled (on_event s e) \<noteq> Some (Inr ())
      \<and> settled (on_event s e) = (case settled s of Some r \<Rightarrow> Some r | None \<Rightarrow> map_option Inl (rejects e))"
    using Cons.prems
    by (cases e) (auto simp: startup_reject_def split: option.splits if_splits)
  from Cons.IH [of "on_event s e"] step
  show ?case by (auto split: option.splits)
qed

lemma startup_events:
  "settled (foldl on_event startup_begin events) = map_option Inl (first_rejection events)
   \<and> (startupErrorReceived (foldl on_event startup_begin events) \<longleftrightarrow> first_rejection events \<noteq> None)"
  using startup_fold [of startup_begin events] by (auto simp: startup_begin_def)

lemma spawn_result:
  "command \<noteq> [] \<Longrightarrow>
   spawnMCPProcess command events
     = Some (case first_rejection events of None \<Rightarrow> Inr () | Some e \<Rightarrow> Inl e)"
  using startup_events [of events]
  by (auto simp: spawnMCPProcess_def on_timer_def startup_resolve_def split: option.splits)

lemma spawn_settles: "\<exists>r. spawnMCPProcess command events = Some r"
proof (cases "command = []")
  case True
  then show ?thesis by (simp add: spawnMCPProcess_def)
next
  case False
  then show ?thesis by (simp add: spawn_result)
qed

text \<open>
  A call that is resumed at once at both of its \<^verbatim>\<open>await\<close>s, in one equation. (The promise
  of \<^verbatim>\<open>spawnMCPProcess\<close> always settles.)
\<close>

lemma getOrCreateClient_alone:
  "getOrCreateClient w st serverCommand serverArgs serverId =
     (let key = clientKey serverId serverCommand
      in case map_of (activeClients st) key of
           Some c \<Rightarrow> (Inr c, st)
         | None \<Rightarrow>
             (case obtain_process w st key serverCommand of
                (Inl e, st1) \<Rightarrow> (Inl e, st1)
              | (Inr processToUse, st1) \<Rightarrow>
                  (case transport_error w of
                     Some m \<Rightarrow> (Inl (FailedToCreateTransport m), st1)
                   | None \<Rightarrow>
                       (case connect_error w of
                          Some m \<Rightarrow>
                            (Inl (ConnectFailed m),
                             case kill_unless_killed (kill_failing w) (processes st1) processToUse of
                               Inl closeError \<Rightarrow> st1
                             | Inr ps \<Rightarrow> st1\<lparr>processes := ps\<rparr>)
                        | None \<Rightarrow>
                            (Inr (length (connections st1)),
                             st1\<lparr>connections := connections st1
                                    @ [\<lparr>c_process = processToUse, c_connected = True\<rparr>],
                                 activeClients :=
                                   map_set (activeClients st1) key (length (connections st1))\<rparr>)))))"
proof -
  obtain r where r: "spawnMCPProcess serverCommand (child_events w) = Some r"
    using spawn_settles by blast
  show ?thesis
  proof (cases "map_of (activeClients st) (clientKey serverId serverCommand)")
    case (Some c)
    then show ?thesis
      by (simp add: getOrCreateClient_def getOrCreateClient_begin_def Let_def)
  next
    case None
    show ?thesis
    proof (cases "map_of (activeProcesses st) (clientKey serverId serverCommand)")
      case (Some pid)
      with None show ?thesis
        by (simp add: getOrCreateClient_def getOrCreateClient_begin_def create_transport_def
            obtain_process_def Let_def split: option.splits)
    next
      case np: None
      show ?thesis
      proof (cases r)
        case (Inl e)
        with None np r show ?thesis
          by (simp add: getOrCreateClient_def getOrCreateClient_begin_def obtain_process_def Let_def)
      next
        case (Inr u)
        with r have "serverCommand \<noteq> []" by (auto simp: spawnMCPProcess_def)
        with Inr None np r show ?thesis
          by (simp add: getOrCreateClient_def getOrCreateClient_begin_def create_transport_def
              obtain_process_def Let_def split: option.splits)
      qed
    qed
  qed
qed

lemma obtain_process_stored:
  "map_of (activeProcesses st) key = Some pid \<Longrightarrow> obtain_process w st key cmd = (Inr pid, st)"
  by (simp add: obtain_process_def)

lemma obtain_process_new:
  assumes "map_of (activeProcesses st) key = None" and "cmd \<noteq> []"
  shows "obtain_process w st key cmd =
    (case first_rejection (child_events w) of
       Some e \<Rightarrow>
         (Inl (FailedToCreateProcess e),
          st\<lparr>processes := processes st @ [\<lparr>p_exited = has_exited (child_events w), p_killed = False\<rparr>]\<rparr>)
     | None \<Rightarrow>
         (Inr (length (processes st)),
          st\<lparr>processes := processes st @ [\<lparr>p_exited = has_exited (child_events w), p_killed = False\<rparr>],
             activeProcesses := map_set (activeProcesses st) key (length (processes st))\<rparr>))"
  using assms by (simp add: obtain_process_def spawn_result split: option.splits)

text \<open>A call that finds the key in \<open>activeClients\<close>.\<close>

lemma getOrCreateClient_cached:
  "map_of (activeClients st) (clientKey serverId cmd) = Some c \<Longrightarrow>
   getOrCreateClient w st cmd args serverId = (Inr c, st)"
  by (simp add: getOrCreateClient_alone)

text \<open>A call that returns a connection leaves it in \<open>activeClients\<close> under the key.\<close>

lemma getOrCreateClient_stores:
  assumes "getOrCreateClient w st cmd args serverId = (Inr c, st')"
  shows "map_of (activeClients st') (clientKey serverId cmd) = Some c"
proof (cases "map_of (activeClients st) (clientKey serverId cmd)")
  case (Some c0)
  with assms show ?thesis by (simp add: getOrCreateClient_alone)
next
  case None
  with assms show ?thesis
    by (auto simp: getOrCreateClient_alone Let_def map_of_map_set
        split: prod.splits sum.splits option.splits)
qed

lemma obtain_process_count:
  assumes "obtain_process w st key cmd = (Inr pid, st1)"
  shows "length (processes st1) =
      (if map_of (activeProcesses st) key = None then length (processes st) + 1 else length (processes st))
    \<and> connections st1 = connections st \<and> activeClients st1 = activeClients st"
  using assms by (auto simp: obtain_process_def split: option.splits sum.splits if_splits)

lemma getOrCreateClient_count:
  assumes "getOrCreateClient w st cmd args serverId = (Inr c, st')"
    and "map_of (activeClients st) (clientKey serverId cmd) = None"
  shows "length (processes st') =
      (if map_of (activeProcesses st) (clientKey serverId cmd) = None then length (processes st) + 1
       else length (processes st))"
proof -
  obtain r st1 where o: "obtain_process w st (clientKey serverId cmd) cmd = (r, st1)"
    by (cases "obtain_process w st (clientKey serverId cmd) cmd") auto
  with assms obtain pid where r: "r = Inr pid" and st': "length (processes st') = length (processes st1)"
    by (auto simp: getOrCreateClient_alone Let_def split: sum.splits option.splits)
  from obtain_process_count [OF o [unfolded r]] st' show ?thesis by simp
qed


lemma kill_unless_killed_Inr:
  assumes "kill_unless_killed failing ps pid = Inr ps'"
  shows "length ps' = length ps"
    and "stopped ps q \<Longrightarrow> stopped ps' q"
    and "pid < length ps \<Longrightarrow> pid \<notin> set failing \<Longrightarrow> stopped ps' pid"
  using assms
  by (auto simp: kill_unless_killed_def kill_def stopped_def nth_list_update split: if_splits)

lemma kill_unless_killed_Inl:
  "kill_unless_killed failing ps pid = Inl err \<Longrightarrow> pid \<in> set failing"
  by (auto simp: kill_unless_killed_def kill_def split: if_splits)

lemma terminate_process_keeps:
  "activeClients (terminate_process failing st e) = activeClients st"
  "activeProcesses (terminate_process failing st e) = activeProcesses st"
  "connections (terminate_process failing st e) = connections st"
  "length (processes (terminate_process failing st e)) = length (processes st)"
  "stopped (processes st) q \<Longrightarrow> stopped (processes (terminate_process failing st e)) q"
  by (auto simp: terminate_process_def kill_unless_killed_Inr split: sum.splits)

lemma terminate_process_stops:
  "snd e < length (processes st) \<Longrightarrow> snd e \<notin> set failing \<Longrightarrow>
   stopped (processes (terminate_process failing st e)) (snd e)"
  by (auto simp: terminate_process_def kill_unless_killed_Inr dest: kill_unless_killed_Inl
      split: sum.splits)

lemma close_connection_keeps:
  "activeClients (close_connection failing st e) = activeClients st"
  "activeProcesses (close_connection failing st e) = activeProcesses st"
  "connections (close_connection failing st e) = connections st"
  "length (processes (close_connection failing st e)) = length (processes st)"
  "stopped (processes st) q \<Longrightarrow> stopped (processes (close_connection failing st e)) q"
  by (auto simp: close_connection_def kill_unless_killed_Inr split: sum.splits)

lemma close_connection_stops:
  "snd e < length (connections st) \<Longrightarrow> c_process (connections st ! snd e) < length (processes st) \<Longrightarrow>
   c_process (connections st ! snd e) \<notin> set failing \<Longrightarrow>
   stopped (processes (close_connection failing st e)) (c_process (connections st ! snd e))"
  by (auto simp: close_connection_def kill_unless_killed_Inr dest: kill_unless_killed_Inl
      split: sum.splits)

lemma fold_close_keeps:
  "activeClients (foldl (close_connection failing) st es) = activeClients st \<and>
   activeProcesses (foldl (close_connection failing) st es) = activeProcesses st \<and>
   connections (foldl (close_connection failing) st es) = connections st \<and>
   length (processes (foldl (close_connection failing) st es)) = length (processes st) \<and>
   (stopped (processes st) q \<longrightarrow> stopped (processes (foldl (close_connection failing) st es)) q)"
  by (induction es arbitrary: st) (simp_all add: close_connection_keeps)

lemma fold_terminate_keeps:
  "activeClients (foldl (terminate_process failing) st es) = activeClients st \<and>
   activeProcesses (foldl (terminate_process failing) st es) = activeProcesses st \<and>
   connections (foldl (terminate_process failing) st es) = connections st \<and>
   length (processes (foldl (terminate_process failing) st es)) = length (processes st) \<and>
   (stopped (processes st) q \<longrightarrow> stopped (processes (foldl (terminate_process failing) st es)) q)"
  by (induction es arbitrary: st) (simp_all add: terminate_process_keeps)

lemma fold_close_stops:
  assumes "e \<in> set es" and "snd e < length (connections st)"
    and "c_process (connections st ! snd e) < length (processes st)"
    and "c_process (connections st ! snd e) \<notin> set failing"
  shows "stopped (processes (foldl (close_connection failing) st es)) (c_process (connections st ! snd e))"
  using assms
proof (induction es arbitrary: st)
  case Nil
  then show ?case by simp
next
  case (Cons a es)
  let ?st = "close_connection failing st a"
  have k: "connections ?st = connections st" "length (processes ?st) = length (processes st)"
    by (simp_all add: close_connection_keeps)
  show ?case
  proof (cases "e = a")
    case True
    with Cons.prems have "stopped (processes ?st) (c_process (connections st ! snd e))"
      by (simp add: close_connection_stops)
    with fold_close_keeps [of failing ?st es "c_process (connections st ! snd e)"]
    show ?thesis by simp
  next
    case False
    with Cons.prems have "e \<in> set es" by simp
    from Cons.IH [of ?st, OF this] Cons.prems k show ?thesis by simp
  qed
qed

lemma fold_terminate_stops:
  assumes "e \<in> set es" and "snd e < length (processes st)" and "snd e \<notin> set failing"
  shows "stopped (processes (foldl (terminate_process failing) st es)) (snd e)"
  using assms
proof (induction es arbitrary: st)
  case Nil
  then show ?case by simp
next
  case (Cons a es)
  let ?st = "terminate_process failing st a"
  have k: "length (processes ?st) = length (processes st)"
    by (simp add: terminate_process_keeps)
  show ?case
  proof (cases "e = a")
    case True
    with Cons.prems have "stopped (processes ?st) (snd e)"
      by (simp add: terminate_process_stops)
    with fold_terminate_keeps [of failing ?st es "snd e"] show ?thesis by simp
  next
    case False
    with Cons.prems have "e \<in> set es" by simp
    from Cons.IH [of ?st, OF this] Cons.prems k show ?thesis by simp
  qed
qed

lemma registry_ok_empty: "registry_ok empty_registry"
  by (simp add: registry_ok_def empty_registry_def)

lemma list_all_map_set:
  "list_all Q ps \<Longrightarrow> Q (k, v) \<Longrightarrow> list_all Q (map_set ps k v)"
  by (induction ps) auto

lemma registry_ok_obtain:
  assumes "registry_ok st" and "obtain_process w st key cmd = (r, st1)"
  shows "registry_ok st1 \<and> (\<forall>pid. r = Inr pid \<longrightarrow> pid < length (processes st1))"
proof (cases "map_of (activeProcesses st) key")
  case (Some pid)
  then have "(key, pid) \<in> set (activeProcesses st)" by (rule map_of_SomeD)
  with assms(1) have "pid < length (processes st)" by (auto simp: registry_ok_def list_all_iff)
  with assms Some show ?thesis by (auto simp: obtain_process_def)
next
  case None
  have mono: "list_all (\<lambda>e. snd e < n) xs \<Longrightarrow> list_all (\<lambda>e. snd e < Suc n) xs" for n and xs :: "(string \<times> nat) list"
    by (induction xs) auto
  have mono2: "list_all (\<lambda>c. c_process c < n) xs \<Longrightarrow> list_all (\<lambda>c. c_process c < Suc n) xs" for n xs
    by (induction xs) auto
  from assms None show ?thesis
    by (auto simp: obtain_process_def registry_ok_def mono mono2
        intro!: list_all_map_set split: option.splits sum.splits if_splits)
qed

lemma registry_ok_kill:
  "registry_ok st \<Longrightarrow> kill_unless_killed failing (processes st) pid = Inr ps \<Longrightarrow>
   registry_ok (st\<lparr>processes := ps\<rparr>)"
  by (simp add: registry_ok_def kill_unless_killed_Inr(1))

lemma registry_ok_getOrCreateClient:
  assumes ok: "registry_ok st" and g: "getOrCreateClient w st cmd args serverId = (r, st')"
  shows "registry_ok st'"
proof (cases "map_of (activeClients st) (clientKey serverId cmd)")
  case (Some c)
  with g ok show ?thesis by (simp add: getOrCreateClient_alone)
next
  case None
  obtain r1 st1 where o: "obtain_process w st (clientKey serverId cmd) cmd = (r1, st1)"
    by (cases "obtain_process w st (clientKey serverId cmd) cmd") auto
  from registry_ok_obtain [OF ok o] have ok1: "registry_ok st1"
    and pid: "\<forall>pid. r1 = Inr pid \<longrightarrow> pid < length (processes st1)" by blast+
  have mono: "list_all (\<lambda>e. snd e < n) xs \<Longrightarrow> list_all (\<lambda>e. snd e < Suc n) xs" for n and xs :: "(string \<times> nat) list"
    by (induction xs) auto
  show ?thesis
  proof (cases r1)
    case (Inl e)
    with g None o ok1 show ?thesis by (simp add: getOrCreateClient_alone Let_def)
  next
    case (Inr p)
    with pid have p: "p < length (processes st1)" by simp
    show ?thesis
    proof (cases "transport_error w")
      case (Some m)
      with g None o Inr ok1 show ?thesis by (simp add: getOrCreateClient_alone Let_def)
    next
      case None2: None
      show ?thesis
      proof (cases "connect_error w")
        case (Some m)
        with g None o Inr None2 ok1 show ?thesis
          by (auto simp: getOrCreateClient_alone Let_def registry_ok_kill split: sum.splits)
      next
        case None3: None
        with g None o Inr None2 have "st' = st1\<lparr>connections := connections st1 @ [\<lparr>c_process = p, c_connected = True\<rparr>],
              activeClients := map_set (activeClients st1) (clientKey serverId cmd) (length (connections st1))\<rparr>"
          by (simp add: getOrCreateClient_alone Let_def)
        with ok1 p show ?thesis
          by (auto simp: registry_ok_def mono intro!: list_all_map_set)
      qed
    qed
  qed
qed

lemma two_servers_eq:
  "two_servers =
     \<lparr>activeClients = [(''a'', 0), (''b'', 1)], activeProcesses = [(''a'', 0), (''b'', 1)],
       connections = [\<lparr>c_process = 0, c_connected = True\<rparr>, \<lparr>c_process = 1, c_connected = True\<rparr>],
       processes = [\<lparr>p_exited = False, p_killed = False\<rparr>, \<lparr>p_exited = False, p_killed = False\<rparr>],
       errlog = []\<rparr>"
  unfolding two_servers_def quiet_world_def by code_simp

lemma two_servers_ok: "registry_ok two_servers"
  unfolding two_servers_def
  by (metis registry_ok_getOrCreateClient registry_ok_empty prod.collapse)

lemma two_servers_cleanup:
  "cleanupClients [1] two_servers =
     Inr \<lparr>activeClients = [], activeProcesses = [],
       connections = [\<lparr>c_process = 0, c_connected = True\<rparr>, \<lparr>c_process = 1, c_connected = True\<rparr>],
       processes = [\<lparr>p_exited = False, p_killed = True\<rparr>, \<lparr>p_exited = False, p_killed = False\<rparr>],
       errlog = [''kill failed'', ''kill failed'']\<rparr>"
  unfolding two_servers_eq by code_simp

text \<open>
  Two calls that do not overlap. When a call of \<^verbatim>\<open>getOrCreateClient\<close> has returned a
  connection, a later call with the same \<^verbatim>\<open>serverId || serverCommand\<close>, whatever its command
  and arguments, returns the same connection and leaves the registry as it is; and when
  neither map held the key before the first call, the first call spawned one process.
\<close>

lemma getOrCreateClient_again:
  assumes "getOrCreateClient w1 st cmd1 args1 sid1 = (Inr c, st1)"
    and "clientKey sid2 cmd2 = clientKey sid1 cmd1"
  shows "getOrCreateClient w2 st1 cmd2 args2 sid2 = (Inr c, st1) \<and>
         (map_of (activeClients st) (clientKey sid1 cmd1) = None \<and>
          map_of (activeProcesses st) (clientKey sid1 cmd1) = None
            \<longrightarrow> length (processes st1) = length (processes st) + 1)"
proof
  from assms(1) have "map_of (activeClients st1) (clientKey sid1 cmd1) = Some c"
    by (rule getOrCreateClient_stores)
  with assms(2) have "map_of (activeClients st1) (clientKey sid2 cmd2) = Some c" by simp
  then show "getOrCreateClient w2 st1 cmd2 args2 sid2 = (Inr c, st1)"
    by (rule getOrCreateClient_cached)
next
  show "map_of (activeClients st) (clientKey sid1 cmd1) = None \<and>
          map_of (activeProcesses st) (clientKey sid1 cmd1) = None
            \<longrightarrow> length (processes st1) = length (processes st) + 1"
    using getOrCreateClient_count [OF assms(1)] by simp
qed

text \<open>
  What the promise of \<^verbatim>\<open>spawnMCPProcess\<close> comes to. Without a command it is rejected at once.
  With one, it is rejected by the first event that is an \<^verbatim>\<open>error\<close> event, an exit with a code
  other than 0, or a stderr chunk that contains \<^verbatim>\<open>ENOENT\<close>, \<^verbatim>\<open>command not found\<close> or
  \<^verbatim>\<open>Error: Cannot find module\<close>, with the error of that event and as soon as the event is
  handled; before the timer the promise is never resolved, and at the timer it is resolved
  when no such event came. A call of \<^verbatim>\<open>getOrCreateClient\<close> that has to spawn throws the
  rejection of the spawn, wrapped.
\<close>

lemma startup_outcome:
  "spawnMCPProcess [] events = Some (Inl NoCommand) \<and>
   (command \<noteq> [] \<longrightarrow>
      settled (foldl on_event startup_begin events) = map_option Inl (first_rejection events) \<and>
      spawnMCPProcess command events
        = Some (case first_rejection events of None \<Rightarrow> Inr () | Some e \<Rightarrow> Inl e) \<and>
      (map_of (activeClients st) (clientKey serverId command) = None \<and>
       map_of (activeProcesses st) (clientKey serverId command) = None \<and>
       first_rejection (child_events w) = Some err \<longrightarrow>
         fst (getOrCreateClient w st command args serverId) = Inl (FailedToCreateProcess err)))"
proof (intro conjI impI)
  show "spawnMCPProcess [] events = Some (Inl NoCommand)" by (simp add: spawnMCPProcess_def)
next
  show "settled (foldl on_event startup_begin events) = map_option Inl (first_rejection events)"
    using startup_events [of events] by simp
next
  assume "command \<noteq> []"
  then show "spawnMCPProcess command events
        = Some (case first_rejection events of None \<Rightarrow> Inr () | Some e \<Rightarrow> Inl e)"
    by (rule spawn_result)
next
  assume "command \<noteq> []" and "map_of (activeClients st) (clientKey serverId command) = None \<and>
       map_of (activeProcesses st) (clientKey serverId command) = None \<and>
       first_rejection (child_events w) = Some err"
  then show "fst (getOrCreateClient w st command args serverId) = Inl (FailedToCreateProcess err)"
    by (simp add: getOrCreateClient_alone Let_def obtain_process_new)
qed

section \<open>The framer: claims C1 and C2\<close>

text \<open>
  Claim C1, as the code has it. \<^verbatim>\<open>_handleProcessOutput\<close> hands every chunk to
  \<^verbatim>\<open>_parseJsonResponses\<close> on its own, and the method returns the list of objects only:
  nothing is carried from one call to the next. Take a stream of lines, a line being the
  text of one value and any white space after it, such that every line starts with a
  character that \<^verbatim>\<open>trim\<close> does not strip, the parser accepts every trimmed line, and in every
  trimmed line the count of braces made by the framer (every \<^verbatim>\<open>{\<close> and \<^verbatim>\<open>}\<close>, inside
  strings too) first finds as many \<^verbatim>\<open>}\<close> as \<^verbatim>\<open>{\<close> at the last character of the line: the
  line ends with \<^verbatim>\<open>}\<close> and no \<^verbatim>\<open>}\<close> before it evens the count, as in every object whose
  strings hold no brace. Cut the stream into chunks between lines, and let the parser
  refuse the text from any line to the end of its chunk, and from any line to the end of
  the stream, whenever that text holds two lines or more. Then the objects of the chunks,
  in order, are the objects of the whole stream in one chunk: the parsed lines, in order.
\<close>

theorem C1_boundary_splits:
  assumes "\<forall>us\<in>set uss. \<forall>u\<in>set us. line_ok P u"
    and "\<forall>us\<in>set uss. multi_fails P us"
    and "multi_fails P (concat uss)"
  shows "concat (map (\<lambda>us. parseJsonResponses P (concat us)) uss)
           = parseJsonResponses P (concat (concat uss))
         \<and> parseJsonResponses P (concat (concat uss)) = map (\<lambda>u. the (P (trim u))) (concat uss)"
proof -
  have each: "parseJsonResponses P (concat us) = map (\<lambda>u. the (P (trim u))) us" if "us \<in> set uss" for us
    using that assms(1,2) parse_loop_lines [of us P "[]"] by (simp add: parseJsonResponses_def)
  have whole: "parseJsonResponses P (concat (concat uss)) = map (\<lambda>u. the (P (trim u))) (concat uss)"
    using assms(1,3) parse_loop_lines [of "concat uss" P "[]"] by (simp add: parseJsonResponses_def)
  have "concat (map (\<lambda>us. parseJsonResponses P (concat us)) uss)
          = concat (map (map (\<lambda>u. the (P (trim u)))) uss)"
    using each by (simp cong: map_cong)
  also have "\<dots> = map (\<lambda>u. the (P (trim u))) (concat uss)" by (simp add: map_concat)
  finally show ?thesis using whole by simp
qed

lemma line_a: \<open>line_ok JSON_parse ''{"a":1}''\<close>
  unfolding line_ok_def by code_simp
lemma line_b: \<open>line_ok JSON_parse ''{"b":2}''\<close>
  unfolding line_ok_def by code_simp
lemma multi_ab: \<open>multi_fails JSON_parse [''{"a":1}'', ''{"b":2}'']\<close>
  by code_simp
lemma parse_a: \<open>JSON_parse (trim ''{"a":1}'') = Some (JObj [(''a'', JNum 1 0)])\<close> by code_simp
lemma parse_b: \<open>JSON_parse (trim ''{"b":2}'') = Some (JObj [(''b'', JNum 2 0)])\<close> by code_simp

text \<open>The stream \<^verbatim>\<open>{"a":1}{"b":2}\<close> cut between its two objects.\<close>

theorem C1_boundary_splits_witness:
  \<open>parseJsonResponses JSON_parse ''{"a":1}'' @ parseJsonResponses JSON_parse ''{"b":2}''
     = parseJsonResponses JSON_parse (''{"a":1}'' @ ''{"b":2}'') \<and>
   parseJsonResponses JSON_parse (''{"a":1}'' @ ''{"b":2}'')
     = [JObj [(''a'', JNum 1 0)], JObj [(''b'', JNum 2 0)]]\<close>
proof -
  have h1: \<open>\<forall>us\<in>set [[''{"a":1}''], [''{"b":2}'']]. \<forall>u\<in>set us. line_ok JSON_parse u\<close>
    using line_a line_b by simp
  have h2: \<open>\<forall>us\<in>set [[''{"a":1}''], [''{"b":2}'']]. multi_fails JSON_parse us\<close> by simp
  have h3: \<open>multi_fails JSON_parse (concat [[''{"a":1}''], [''{"b":2}'']])\<close>
    using multi_ab by simp
  from C1_boundary_splits [OF h1 h2 h3] show ?thesis
    by (simp add: parse_a parse_b)
qed

text \<open>
  Claim C1 as it is written fails for a cut inside an object. The chunks \<^verbatim>\<open>{"a":1\<close>
  and \<^verbatim>\<open>}{"b":2}\<close> give no object at all, one call after the other, where the whole
  stream gives two. Even for a caller that would keep the loop's variable \<^verbatim>\<open>remaining\<close> and
  put it before the next chunk, the second call ends with \<^verbatim>\<open>{"b":2}\<close> in
  \<^verbatim>\<open>remaining\<close>, not with the empty text: the loop leaves by \<^verbatim>\<open>break\<close> when the whole
  of \<^verbatim>\<open>remaining\<close> parses, without consuming it. And a cut between two objects changes the
  result when a string holds a brace: \<^verbatim>\<open>{"s":"}"}\<close> and \<^verbatim>\<open>{"b":2}\<close> give one object
  each as two chunks, and none as one chunk, where the count of braces stops inside the
  string.
\<close>

theorem C1_counterexample:
  \<open>parseJsonResponses JSON_parse ''{"a":1}{"b":2}'' = [JObj [(''a'', JNum 1 0)], JObj [(''b'', JNum 2 0)]] \<and>
   parseJsonResponses JSON_parse ''{"a":1'' = [] \<and>
   parseJsonResponses JSON_parse ''}{"b":2}'' = [] \<and>
   ''{"a":1'' @ ''}{"b":2}'' = ''{"a":1}{"b":2}'' \<and>
   parse_loop JSON_parse [] (trim ''{"a":1'') = ([], ''{"a":1'') \<and>
   parse_loop JSON_parse [] (trim (''{"a":1'' @ ''}{"b":2}''))
     = ([JObj [(''a'', JNum 1 0)], JObj [(''b'', JNum 2 0)]], ''{"b":2}'') \<and>
   parseJsonResponses JSON_parse ''{"s":"}"}'' = [JObj [(''s'', JStr ''}'')]] \<and>
   parseJsonResponses JSON_parse ''{"b":2}'' = [JObj [(''b'', JNum 2 0)]] \<and>
   parseJsonResponses JSON_parse (''{"s":"}"}'' @ ''{"b":2}'') = [] \<and>
   findEndPos ''{"s":"}"}'' = Some 7\<close>
  by code_simp

text \<open>
  Claim C2, as the code has it. The empty buffer gives no object. Take a buffer whose
  trimmed text the parser refuses (\<^verbatim>\<open>trim\<close> strips more than the white space of JSON: the
  vertical tab, the form feed and the no-break space too) and in whose trimmed text no
  \<^verbatim>\<open>}\<close> has as many \<^verbatim>\<open>{\<close> as \<^verbatim>\<open>}\<close> before and including it (so \<^verbatim>\<open>{"a":1\<close>, or any text
  cut inside its outermost object when no string holds a brace). It gives no object, and
  the loop ends with the trimmed buffer in its variable \<^verbatim>\<open>remaining\<close>; the method does not
  return that variable.
\<close>

theorem C2_partial_buffer_retained:
  "parseJsonResponses P [] = [] \<and>
   (P (trim buf) = None \<and>
    (\<forall>n. 0 < n \<and> n \<le> length (trim buf) \<and> trim buf ! (n - 1) = CHR ''}'' \<longrightarrow>
         count_list (take n (trim buf)) CHR ''{'' \<noteq> count_list (take n (trim buf)) CHR ''}'')
    \<longrightarrow> parseJsonResponses P buf = [] \<and> parse_loop P [] (trim buf) = ([], trim buf))"
proof (intro conjI impI)
  have "trim [] = []" by (simp add: trim_def)
  then show "parseJsonResponses P [] = []"
    by (simp add: parseJsonResponses_def parse_loop_empty)
next
  assume h: "P (trim buf) = None \<and>
    (\<forall>n. 0 < n \<and> n \<le> length (trim buf) \<and> trim buf ! (n - 1) = CHR ''}'' \<longrightarrow>
         count_list (take n (trim buf)) CHR ''{'' \<noteq> count_list (take n (trim buf)) CHR ''}'')"
  then have "findEndPos (trim buf) = None"
    by (subst findEndPos_None_iff) blast
  with h have "parse_loop P [] (trim buf) = ([], trim buf)"
    by (simp add: parse_loop_stop)
  then show "parse_loop P [] (trim buf) = ([], trim buf)" .
  then show "parseJsonResponses P buf = []" by (simp add: parseJsonResponses_def)
qed

lemma trim_partial: \<open>trim ''{"a":1'' = ''{"a":1''\<close>
  by code_simp

text \<open>The buffer \<^verbatim>\<open>{"a":1\<close>.\<close>

theorem C2_partial_buffer_witness:
  \<open>JSON_parse ''{"a":1'' = None \<and> findEndPos ''{"a":1'' = None \<and>
   parseJsonResponses JSON_parse ''{"a":1'' = [] \<and>
   parse_loop JSON_parse [] (trim ''{"a":1'') = ([], ''{"a":1'')\<close>
proof -
  have p: \<open>JSON_parse ''{"a":1'' = None\<close> by code_simp
  have e: \<open>findEndPos ''{"a":1'' = None\<close> by code_simp
  from e have c: \<open>\<forall>n. 0 < n \<and> n \<le> length ''{"a":1'' \<and> ''{"a":1'' ! (n - 1) = CHR ''}'' \<longrightarrow>
         count_list (take n ''{"a":1'') CHR ''{'' \<noteq> count_list (take n ''{"a":1'') CHR ''}''\<close>
    by (simp only: findEndPos_None_iff)
  show ?thesis
    using C2_partial_buffer_retained [of JSON_parse \<open>''{"a":1''\<close>] p e c
    by (simp only: trim_partial simp_thms)
qed

text \<open>
  Claim C2 as it is written fails for a proper prefix of an object with a \<^verbatim>\<open>}\<close> inside a
  string. The buffer below is the object \<^verbatim>\<open>{"k":{"a":1},"s":"}"}\<close> without its last
  two characters. The scan stops at its end, the parse of that span fails, and the loop
  then drops one character at a time until \<^verbatim>\<open>{"a":1}\<close> stands at the front, which it
  parses and returns.
\<close>

theorem C2_counterexample:
  \<open>JSON_parse ''{"k":{"a":1},"s":"}"}'' =
     Some (JObj [(''k'', JObj [(''a'', JNum 1 0)]), (''s'', JStr ''}'')]) \<and>
   take 19 ''{"k":{"a":1},"s":"}"}'' = ''{"k":{"a":1},"s":"}'' \<and>
   JSON_parse ''{"k":{"a":1},"s":"}'' = None \<and>
   parseJsonResponses JSON_parse ''{"k":{"a":1},"s":"}'' = [JObj [(''a'', JNum 1 0)]]\<close>
  by code_simp

section \<open>The transport: claims C3, C4 and C9\<close>

text \<open>
  Claim C3, as the code has it. A chunk of output is framed into a list of responses, and
  the loop goes through all of them. Let the transport be in a state that satisfies its
  invariant (every state it reaches does), and let every response of the chunk be one on
  which the loop cannot throw: none is \<^verbatim>\<open>null\<close>, and where \<^verbatim>\<open>error\<close> is truthy its message
  is one that \<^verbatim>\<open>new Error\<close> can turn into a string. Then for every response of the chunk
  whose \<^verbatim>\<open>id\<close> is a number, string or boolean with a handler, and which is the first in the
  chunk with that id: when the chunk has been handled, the handler is removed, and the
  promise of that handler is rejected with \<^verbatim>\<open>error.message\<close>, or with \<^verbatim>\<open>Unknown error\<close> when
  that message is missing or falsy, if the response's \<^verbatim>\<open>error\<close> is truthy, and is resolved
  with the response's \<^verbatim>\<open>result\<close> otherwise. A handler whose id no response of the chunk
  carries stays, a promise whose handler no response of the chunk names is as before, and
  the process is not touched. A chunk in which every response is without an id, or has a
  falsy id, an object or array as id, or an id without a handler, changes nothing. A
  \<^verbatim>\<open>null\<close> among the responses ends the loop (the \<^verbatim>\<open>TypeError\<close> is caught): the responses
  before it are handled, those after it are not. The order in which the responses arrive
  plays no part.
\<close>

theorem C3_response_correlation:
  assumes inv: "transport_inv st"
    and framed: "parseJsonResponses P chunk = rs"
    and ok: "\<forall>r\<in>set rs. completes r"
  shows
    "(\<forall>i<length rs. \<forall>rid p.
        get_prop (rs ! i) ''id'' = Some rid \<and> is_primitive rid \<and>
        map_of (responseHandlers st) rid = Some p \<and>
        (\<forall>j<i. get_prop (rs ! j) ''id'' \<noteq> Some rid) \<longrightarrow>
          map_of (responseHandlers (handleProcessOutput P st chunk)) rid = None \<and>
          (truthy (get_prop (rs ! i) ''error'') \<longrightarrow>
             (\<exists>err. get_prop (rs ! i) ''error'' = Some err \<and>
                promises (handleProcessOutput P st chunk) ! p = Rejected (error_message err))) \<and>
          (\<not> truthy (get_prop (rs ! i) ''error'') \<longrightarrow>
             promises (handleProcessOutput P st chunk) ! p
               = Resolved (get_prop (rs ! i) ''result'')))
     \<and> (\<forall>k. (\<forall>r\<in>set rs. get_prop r ''id'' \<noteq> Some k) \<longrightarrow>
           map_of (responseHandlers (handleProcessOutput P st chunk)) k
             = map_of (responseHandlers st) k)
     \<and> (\<forall>q. (\<forall>r\<in>set rs. \<forall>rid. get_prop r ''id'' = Some rid \<longrightarrow>
                 map_of (responseHandlers st) rid \<noteq> Some q) \<longrightarrow>
           promises (handleProcessOutput P st chunk) ! q = promises st ! q)
     \<and> killed (handleProcessOutput P st chunk) = killed st
     \<and> ((\<forall>r\<in>set rs. get_prop r ''id'' = None \<or>
           (\<exists>v. get_prop r ''id'' = Some v \<and>
              (\<not> truthy (Some v) \<or> \<not> is_primitive v \<or> map_of (responseHandlers st) v = None)))
         \<longrightarrow> handleProcessOutput P st chunk = st)
     \<and> handle_responses st (rs @ JNull # rest) = handleProcessOutput P st chunk"
proof -
  have out: "handleProcessOutput P st chunk = handle_responses st rs"
    using framed by (simp add: handleProcessOutput_def)
  have a: "\<forall>i<length rs. \<forall>rid p.
        get_prop (rs ! i) ''id'' = Some rid \<and> is_primitive rid \<and>
        map_of (responseHandlers st) rid = Some p \<and>
        (\<forall>j<i. get_prop (rs ! j) ''id'' \<noteq> Some rid) \<longrightarrow>
          map_of (responseHandlers (handle_responses st rs)) rid = None \<and>
          (truthy (get_prop (rs ! i) ''error'') \<longrightarrow>
             (\<exists>err. get_prop (rs ! i) ''error'' = Some err \<and>
                promises (handle_responses st rs) ! p = Rejected (error_message err))) \<and>
          (\<not> truthy (get_prop (rs ! i) ''error'') \<longrightarrow>
             promises (handle_responses st rs) ! p = Resolved (get_prop (rs ! i) ''result''))"
  proof (intro allI impI)
    fix i rid p
    assume i: "i < length rs"
      and h: "get_prop (rs ! i) ''id'' = Some rid \<and> is_primitive rid \<and>
        map_of (responseHandlers st) rid = Some p \<and>
        (\<forall>j<i. get_prop (rs ! j) ''id'' \<noteq> Some rid)"
    from i have mem: "rs ! i \<in> set rs" by simp
    from h have h1: "get_prop (rs ! i) ''id'' = Some rid" and h2: "is_primitive rid"
      and h3: "map_of (responseHandlers st) rid = Some p"
      and h4: "\<forall>j<i. get_prop (rs ! j) ''id'' \<noteq> Some rid" by blast+
    have p: "promises (handle_responses st rs) ! p = outcome_of (rs ! i)"
      by (rule handle_responses_first [OF inv ok i h1 h2 h3 h4])
    have gone: "map_of (responseHandlers (handle_responses st rs)) rid = None"
      using h mem by (auto simp: handle_responses_handlers [OF inv ok])
    have rej: "\<exists>err. get_prop (rs ! i) ''error'' = Some err \<and>
          promises (handle_responses st rs) ! p = Rejected (error_message err)"
      if "truthy (get_prop (rs ! i) ''error'')"
    proof -
      from that obtain err where e: "get_prop (rs ! i) ''error'' = Some err" "truthy (Some err)"
        by (cases "get_prop (rs ! i) ''error''") auto
      with p have "promises (handle_responses st rs) ! p = Rejected (error_message err)"
        by (simp add: outcome_of_def)
      with e show ?thesis by blast
    qed
    have res: "promises (handle_responses st rs) ! p = Resolved (get_prop (rs ! i) ''result'')"
      if "\<not> truthy (get_prop (rs ! i) ''error'')"
      using that p by (auto simp: outcome_of_def split: option.splits)
    from gone rej res
    show "map_of (responseHandlers (handle_responses st rs)) rid = None \<and>
          (truthy (get_prop (rs ! i) ''error'') \<longrightarrow>
             (\<exists>err. get_prop (rs ! i) ''error'' = Some err \<and>
                promises (handle_responses st rs) ! p = Rejected (error_message err))) \<and>
          (\<not> truthy (get_prop (rs ! i) ''error'') \<longrightarrow>
             promises (handle_responses st rs) ! p = Resolved (get_prop (rs ! i) ''result''))"
      by blast
  qed
  have b: "\<forall>k. (\<forall>r\<in>set rs. get_prop r ''id'' \<noteq> Some k) \<longrightarrow>
           map_of (responseHandlers (handle_responses st rs)) k = map_of (responseHandlers st) k"
    by (auto simp: handle_responses_handlers [OF inv ok])
  have c: "\<forall>q. (\<forall>r\<in>set rs. \<forall>rid. get_prop r ''id'' = Some rid \<longrightarrow>
                 map_of (responseHandlers st) rid \<noteq> Some q) \<longrightarrow>
           promises (handle_responses st rs) ! q = promises st ! q"
  proof (intro allI impI)
    fix q assume "\<forall>r\<in>set rs. \<forall>rid. get_prop r ''id'' = Some rid \<longrightarrow>
                 map_of (responseHandlers st) rid \<noteq> Some q"
    then have "\<forall>r\<in>set rs. \<forall>rid. get_prop r ''id'' = Some rid \<and> is_primitive rid \<longrightarrow>
           map_of (responseHandlers st) rid \<noteq> Some q" by blast
    with inv ok show "promises (handle_responses st rs) ! q = promises st ! q"
      by (rule handle_responses_frame)
  qed
  have d: "killed (handle_responses st rs) = killed st"
    by (simp add: handle_responses_fields)
  have e: "handle_responses st rs = st"
    if u: "\<forall>r\<in>set rs. get_prop r ''id'' = None \<or>
           (\<exists>v. get_prop r ''id'' = Some v \<and>
              (\<not> truthy (Some v) \<or> \<not> is_primitive v \<or> map_of (responseHandlers st) v = None))"
  proof (rule handle_responses_unmatched [OF inv])
    show "\<forall>r\<in>set rs. r \<noteq> JNull" using ok by (auto simp: completes_def)
    show "\<forall>r\<in>set rs. \<forall>rid. get_prop r ''id'' = Some rid \<and> is_primitive rid \<longrightarrow>
           map_of (responseHandlers st) rid = None"
      using u falsy_no_handler [OF inv] by fastforce
  qed
  have f: "handle_responses st (rs @ JNull # rest) = handle_responses st rs"
    using inv ok by (rule handle_responses_null)
  from a b c d e f show ?thesis unfolding out by blast
qed

text \<open>
  Two requests with ids 1 and 2. One chunk brings the response for 2 and then the response
  for 1: the first settles the second promise, the second settles the first, each with its
  own payload, and no handler is left. A chunk with a notification and a response for an
  id that was never sent changes nothing.
\<close>

theorem C3_response_correlation_witness:
  \<open>parseJsonResponses JSON_parse
      (''{"jsonrpc":"2.0","id":2,"result":"two"}'' @ [CHR 0x0A] @
       ''{"jsonrpc":"2.0","id":1,"error":{"code":-1,"message":"boom"}}'' @ [CHR 0x0A])
     = [JObj [(''jsonrpc'', JStr ''2.0''), (''id'', JNum 2 0), (''result'', JStr ''two'')],
        JObj [(''jsonrpc'', JStr ''2.0''), (''id'', JNum 1 0),
              (''error'', JObj [(''code'', JNum (- 1) 0), (''message'', JStr ''boom'')])]] \<and>
   promises (handleProcessOutput JSON_parse two_sent
      (''{"jsonrpc":"2.0","id":2,"result":"two"}'' @ [CHR 0x0A] @
       ''{"jsonrpc":"2.0","id":1,"error":{"code":-1,"message":"boom"}}'' @ [CHR 0x0A]))
     = [Rejected (JStr ''boom''), Resolved (Some (JStr ''two''))] \<and>
   map_of (responseHandlers (handleProcessOutput JSON_parse two_sent
      (''{"jsonrpc":"2.0","id":2,"result":"two"}'' @ [CHR 0x0A] @
       ''{"jsonrpc":"2.0","id":1,"error":{"code":-1,"message":"boom"}}'' @ [CHR 0x0A]))) (JNum 1 0)
     = None \<and>
   map_of (responseHandlers (handleProcessOutput JSON_parse two_sent
      (''{"jsonrpc":"2.0","id":2,"result":"two"}'' @ [CHR 0x0A] @
       ''{"jsonrpc":"2.0","id":1,"error":{"code":-1,"message":"boom"}}'' @ [CHR 0x0A]))) (JNum 2 0)
     = None \<and>
   handleProcessOutput JSON_parse two_sent
      (''{"jsonrpc":"2.0","method":"notifications/progress"}'' @ [CHR 0x0A] @
       ''{"jsonrpc":"2.0","id":7,"result":"late"}'' @ [CHR 0x0A]) = two_sent\<close>
proof -
  let ?chunk = \<open>''{"jsonrpc":"2.0","id":2,"result":"two"}'' @ [CHR 0x0A] @
       ''{"jsonrpc":"2.0","id":1,"error":{"code":-1,"message":"boom"}}'' @ [CHR 0x0A]\<close>
  let ?r2 = "JObj [(''jsonrpc'', JStr ''2.0''), (''id'', JNum 2 0), (''result'', JStr ''two'')]"
  let ?r1 = "JObj [(''jsonrpc'', JStr ''2.0''), (''id'', JNum 1 0),
              (''error'', JObj [(''code'', JNum (- 1) 0), (''message'', JStr ''boom'')])]"
  let ?s = "handleProcessOutput JSON_parse two_sent ?chunk"
  have framed: "parseJsonResponses JSON_parse ?chunk = [?r2, ?r1]" by code_simp
  have ok: "\<forall>r\<in>set [?r2, ?r1]. completes r" by (simp add: completes_def error_message_def)
  note A = C3_response_correlation [OF two_sent_inv framed ok]
  have first: "get_prop ([?r2, ?r1] ! 0) ''id'' = Some (JNum 2 0) \<and> is_primitive (JNum 2 0) \<and>
      map_of (responseHandlers two_sent) (JNum 2 0) = Some 1 \<and>
      (\<forall>j<0. get_prop ([?r2, ?r1] ! j) ''id'' \<noteq> Some (JNum 2 0))"
    by (simp add: two_sent_handlers)
  have second: "get_prop ([?r2, ?r1] ! 1) ''id'' = Some (JNum 1 0) \<and> is_primitive (JNum 1 0) \<and>
      map_of (responseHandlers two_sent) (JNum 1 0) = Some 0 \<and>
      (\<forall>j<1. get_prop ([?r2, ?r1] ! j) ''id'' \<noteq> Some (JNum 1 0))"
    by (simp add: two_sent_handlers)
  from A have A1: "\<forall>i<length [?r2, ?r1]. \<forall>rid p.
        get_prop ([?r2, ?r1] ! i) ''id'' = Some rid \<and> is_primitive rid \<and>
        map_of (responseHandlers two_sent) rid = Some p \<and>
        (\<forall>j<i. get_prop ([?r2, ?r1] ! j) ''id'' \<noteq> Some rid) \<longrightarrow>
          map_of (responseHandlers ?s) rid = None \<and>
          (truthy (get_prop ([?r2, ?r1] ! i) ''error'') \<longrightarrow>
             (\<exists>err. get_prop ([?r2, ?r1] ! i) ''error'' = Some err \<and>
                promises ?s ! p = Rejected (error_message err))) \<and>
          (\<not> truthy (get_prop ([?r2, ?r1] ! i) ''error'') \<longrightarrow>
             promises ?s ! p = Resolved (get_prop ([?r2, ?r1] ! i) ''result''))"
    by (rule conjunct1)
  from A1 [rule_format, of 0 "JNum 2 0" 1, OF _ first]
  have p1: "promises ?s ! 1 = Resolved (Some (JStr ''two''))"
    and h2: "map_of (responseHandlers ?s) (JNum 2 0) = None"
    by simp_all
  from A1 [rule_format, of 1 "JNum 1 0" 0, OF _ second]
  have p0: "promises ?s ! 0 = Rejected (JStr ''boom'')"
    and h1: "map_of (responseHandlers ?s) (JNum 1 0) = None"
    by (simp_all add: error_message_def)
  have l: "length (promises ?s) = 2"
    by (simp add: handleProcessOutput_def handle_responses_fields two_sent_promises)
  have c1: "promises ?s = [Rejected (JStr ''boom''), Resolved (Some (JStr ''two''))]"
    using p0 p1 l by (auto simp: list_eq_iff_nth_eq less_Suc_eq numeral_2_eq_2)
  let ?chunk2 = \<open>''{"jsonrpc":"2.0","method":"notifications/progress"}'' @ [CHR 0x0A] @
       ''{"jsonrpc":"2.0","id":7,"result":"late"}'' @ [CHR 0x0A]\<close>
  let ?n = "JObj [(''jsonrpc'', JStr ''2.0''), (''method'', JStr ''notifications/progress'')]"
  let ?l = "JObj [(''jsonrpc'', JStr ''2.0''), (''id'', JNum 7 0), (''result'', JStr ''late'')]"
  have framed2: "parseJsonResponses JSON_parse ?chunk2 = [?n, ?l]" by code_simp
  have ok2: "\<forall>r\<in>set [?n, ?l]. completes r" by (simp add: completes_def)
  from C3_response_correlation [OF two_sent_inv framed2 ok2]
  have c2: "handleProcessOutput JSON_parse two_sent ?chunk2 = two_sent"
    by (simp add: two_sent_handlers)
  from framed c1 h1 h2 c2 show ?thesis by simp
qed

text \<open>
  Claim C3 as it is written fails for a response that has an \<^verbatim>\<open>error\<close> field whose value
  is falsy: with \<^verbatim>\<open>"error":null\<close> beside a result, the promise is resolved with the result,
  not rejected. A truthy error whose message is the empty string is reported as
  \<^verbatim>\<open>Unknown error\<close>. And for an error whose message is an object with a property
  \<^verbatim>\<open>toString\<close>, \<^verbatim>\<open>new Error\<close> throws after the handler was deleted: the promise is neither
  resolved nor rejected, then or when its timer runs, and the response behind it in the
  chunk, for the second request, is not looked at.
\<close>

theorem C3_counterexample:
  \<open>responseHandlers (run JSON_parse new_transport [Send [(''method'', JStr ''tools/list'')]])
     = [(JNum 1 0, 0)] \<and>
   JSON_parse ''{"jsonrpc":"2.0","id":1,"result":5,"error":null}''
     = Some (JObj [(''jsonrpc'', JStr ''2.0''), (''id'', JNum 1 0), (''result'', JNum 5 0),
                   (''error'', JNull)]) \<and>
   promises (run JSON_parse new_transport
      [Send [(''method'', JStr ''tools/list'')],
       Output ''{"jsonrpc":"2.0","id":1,"result":5,"error":null}''])
     = [Resolved (Some (JNum 5 0))] \<and>
   promises (run JSON_parse new_transport
      [Send [(''method'', JStr ''tools/list'')],
       Output ''{"jsonrpc":"2.0","id":1,"error":{"code":-32000,"message":""}}''])
     = [Rejected (JStr ''Unknown error'')] \<and>
   promises (run JSON_parse two_sent
      [Output ''{"id":1,"error":{"message":{"toString":1}}}{"id":2,"result":"two"}'',
       Advance 30000])
     = [Pending, Rejected (JStr ''Request timed out after 30 seconds'')] \<and>
   responseHandlers (run JSON_parse two_sent
      [Output ''{"id":1,"error":{"message":{"toString":1}}}{"id":2,"result":"two"}'',
       Advance 30000])
     = []\<close>
  unfolding two_sent_def by code_simp

text \<open>
  Claim C9, as the code has it. On a process that was not killed, a request object whose
  \<^verbatim>\<open>id\<close> is truthy is registered under that id and written with that id, and the counter
  stays; a request object without an id, or with a falsy one, is registered and written
  under the counter plus one, which becomes the counter. The counter of a new transport is
  0, so the ids it gives are 1, 2, 3 and so on. Whatever happens to a new transport, as
  long as no caller brings a truthy id of its own, no two of the requests it has written
  share an id, whether they are still pending or not (each request written has its
  promise).
\<close>

theorem C9_request_ids:
  "(\<not> killed st \<and> map_of requestObj ''id'' = Some v \<and> truthy (Some v) \<longrightarrow>
      (\<exists>p st' env. sendRequest st requestObj = Inr (p, st') \<and>
         map_of (responseHandlers st') v = Some p \<and>
         written st' = written st @ [JObj env] \<and> map_of env ''id'' = Some v \<and>
         lastRequestId st' = lastRequestId st))
   \<and> (\<not> killed st \<and> \<not> truthy (map_of requestObj ''id'') \<longrightarrow>
      (\<exists>p st' env. sendRequest st requestObj = Inr (p, st') \<and>
         map_of (responseHandlers st') (JNum (int (lastRequestId st) + 1) 0) = Some p \<and>
         written st' = written st @ [JObj env] \<and>
         map_of env ''id'' = Some (JNum (int (lastRequestId st) + 1) 0) \<and>
         lastRequestId st' = lastRequestId st + 1))
   \<and> lastRequestId new_transport = 0
   \<and> ((\<forall>ev\<in>set evs. counted ev) \<longrightarrow>
        distinct (written_ids (run P new_transport evs)) \<and>
        length (promises (run P new_transport evs)) = length (written_ids (run P new_transport evs)))"
proof (intro conjI impI)
  assume h: "\<not> killed st \<and> map_of requestObj ''id'' = Some v \<and> truthy (Some v)"
  then have a: "assign_id st requestObj = (v, st)" by (simp add: assign_id_def)
  from h sendRequest_alive [of st requestObj] a
  show "\<exists>p st' env. sendRequest st requestObj = Inr (p, st') \<and>
         map_of (responseHandlers st') v = Some p \<and>
         written st' = written st @ [JObj env] \<and> map_of env ''id'' = Some v \<and>
         lastRequestId st' = lastRequestId st"
    by (auto simp: map_of_map_set map_of_envelope)
next
  assume h: "\<not> killed st \<and> \<not> truthy (map_of requestObj ''id'')"
  then have a: "assign_id st requestObj =
      (JNum (int (lastRequestId st) + 1) 0, st\<lparr>lastRequestId := lastRequestId st + 1\<rparr>)"
    by (auto simp: assign_id_def Let_def add.commute split: option.splits)
  from h sendRequest_alive [of st requestObj] a
  show "\<exists>p st' env. sendRequest st requestObj = Inr (p, st') \<and>
         map_of (responseHandlers st') (JNum (int (lastRequestId st) + 1) 0) = Some p \<and>
         written st' = written st @ [JObj env] \<and>
         map_of env ''id'' = Some (JNum (int (lastRequestId st) + 1) 0) \<and>
         lastRequestId st' = lastRequestId st + 1"
    by (auto simp: map_of_map_set map_of_envelope)
next
  show "lastRequestId new_transport = 0" by (simp add: new_transport_def)
next
  assume "\<forall>ev\<in>set evs. counted ev"
  from counted_distinct [OF this, of P]
  show "distinct (written_ids (run P new_transport evs))" by blast
next
  assume "\<forall>ev\<in>set evs. counted ev"
  from counted_distinct [OF this, of P]
  show "length (promises (run P new_transport evs)) = length (written_ids (run P new_transport evs))"
    by blast
qed

text \<open>
  A request with the id \<^verbatim>\<open>"abc"\<close> on a new transport, and a request without an id after
  two others; the two others were written under 1 and 2.
\<close>

theorem C9_request_ids_witness:
  \<open>(\<exists>p st' env. sendRequest new_transport [(''id'', JStr ''abc''), (''method'', JStr ''ping'')] = Inr (p, st') \<and>
      map_of (responseHandlers st') (JStr ''abc'') = Some p \<and>
      written st' = [JObj env] \<and> map_of env ''id'' = Some (JStr ''abc'') \<and> lastRequestId st' = 0) \<and>
   (\<exists>p st' env. sendRequest two_sent [(''method'', JStr ''ping'')] = Inr (p, st') \<and>
      map_of (responseHandlers st') (JNum 3 0) = Some p \<and>
      written st' = written two_sent @ [JObj env] \<and> map_of env ''id'' = Some (JNum 3 0) \<and>
      lastRequestId st' = 3) \<and>
   written_ids two_sent = [Some (JNum 1 0), Some (JNum 2 0)] \<and>
   distinct (written_ids two_sent) \<and>
   length (promises two_sent) = length (written_ids two_sent)\<close>
proof -
  have k: "\<not> killed new_transport" "written new_transport = []" "lastRequestId new_transport = 0"
    by (simp_all add: new_transport_def)
  note A = C9_request_ids [where st=new_transport and requestObj="[(''id'', JStr ''abc''), (''method'', JStr ''ping'')]"
      and v="JStr ''abc''" and P=JSON_parse
      and evs="[Send [(''method'', JStr ''tools/list''), (''params'', JObj [])],
      Send [(''method'', JStr ''prompts/list''), (''params'', JObj [])]]"]
  note B = C9_request_ids [where st=two_sent and requestObj="[(''method'', JStr ''ping'')]"
      and v="JStr ''abc''" and P=JSON_parse and evs="[]"]
  from A k have a: "\<exists>p st' env. sendRequest new_transport [(''id'', JStr ''abc''), (''method'', JStr ''ping'')] = Inr (p, st') \<and>
      map_of (responseHandlers st') (JStr ''abc'') = Some p \<and>
      written st' = [JObj env] \<and> map_of env ''id'' = Some (JStr ''abc'') \<and> lastRequestId st' = 0"
    by simp
  from B two_sent_alive have b: "\<exists>p st' env. sendRequest two_sent [(''method'', JStr ''ping'')] = Inr (p, st') \<and>
      map_of (responseHandlers st') (JNum 3 0) = Some p \<and>
      written st' = written two_sent @ [JObj env] \<and> map_of env ''id'' = Some (JNum 3 0) \<and>
      lastRequestId st' = 3"
    by simp
  from A have d: "distinct (written_ids two_sent) \<and>
      length (promises two_sent) = length (written_ids two_sent)"
    unfolding two_sent_def by simp
  have w: "written_ids two_sent = [Some (JNum 1 0), Some (JNum 2 0)]"
    unfolding two_sent_def by code_simp
  show ?thesis using a b d w by simp
qed

text \<open>
  Claim C9 as it is written fails for the id 0, which \<^verbatim>\<open>||\<close> takes for a missing one:
  the request is registered and written under the id 1. And a caller that brings the id 1
  on a new transport shares it with the next request that brings none: both are written
  with the id 1, both are pending, and one handler is left for the two, which gives the
  answer meant for the first to the second.
\<close>

theorem C9_counterexample:
  \<open>JSON_parse ''0'' = Some (JNum 0 0) \<and>
   sendRequest new_transport [(''id'', JNum 0 0), (''method'', JStr ''ping'')] =
     Inr (0, \<lparr>killed = False, responseHandlers = [(JNum 1 0, 0)], lastRequestId = 1,
              promises = [Pending],
              written = [JObj [(''id'', JNum 1 0), (''method'', JStr ''ping''),
                               (''jsonrpc'', JStr ''2.0'')]],
              writes = [(JNum 1 0, 0)], timers = [(30000, JNum 1 0, 0)], now = 0\<rparr>) \<and>
   written_ids (run JSON_parse new_transport
      [Send [(''id'', JNum 1 0), (''method'', JStr ''first'')], Send [(''method'', JStr ''second'')]])
     = [Some (JNum 1 0), Some (JNum 1 0)] \<and>
   promises (run JSON_parse new_transport
      [Send [(''id'', JNum 1 0), (''method'', JStr ''first'')], Send [(''method'', JStr ''second'')]])
     = [Pending, Pending] \<and>
   responseHandlers (run JSON_parse new_transport
      [Send [(''id'', JNum 1 0), (''method'', JStr ''first'')], Send [(''method'', JStr ''second'')]])
     = [(JNum 1 0, 1)] \<and>
   promises (run JSON_parse new_transport
      [Send [(''id'', JNum 1 0), (''method'', JStr ''first'')], Send [(''method'', JStr ''second'')],
       Output ''{"jsonrpc":"2.0","id":1,"result":"for the first"}''])
     = [Pending, Resolved (Some (JStr ''for the first''))]\<close>
  by code_simp

text \<open>
  Claim C4 at an input where the code fails it. A request with the id \<^verbatim>\<open>"x"\<close> is answered
  after one second. A second request with the same id is sent at two seconds and never
  answered. At thirty seconds the timer of the first request finds a handler under
  \<^verbatim>\<open>"x"\<close>, removes it, and rejects the first promise, which is settled already. At
  thirty-two seconds the timer of the second request finds no handler and does nothing.
  The promise of the second request stays pending for good: no handler and no timer is
  left that could settle it.
\<close>

theorem C4_stale_timer:
  \<open>promises (run JSON_parse new_transport
      [Send [(''id'', JStr ''x''), (''method'', JStr ''tools/call'')],
       Advance 1000,
       Output ''{"jsonrpc":"2.0","id":"x","result":1}'',
       Advance 1000,
       Send [(''id'', JStr ''x''), (''method'', JStr ''tools/call'')],
       Advance 28000,
       Advance 2000,
       Advance 600000]) = [Resolved (Some (JNum 1 0)), Pending] \<and>
   responseHandlers (run JSON_parse new_transport
      [Send [(''id'', JStr ''x''), (''method'', JStr ''tools/call'')],
       Advance 1000,
       Output ''{"jsonrpc":"2.0","id":"x","result":1}'',
       Advance 1000,
       Send [(''id'', JStr ''x''), (''method'', JStr ''tools/call'')],
       Advance 28000,
       Advance 2000,
       Advance 600000]) = [] \<and>
   timers (run JSON_parse new_transport
      [Send [(''id'', JStr ''x''), (''method'', JStr ''tools/call'')],
       Advance 1000,
       Output ''{"jsonrpc":"2.0","id":"x","result":1}'',
       Advance 1000,
       Send [(''id'', JStr ''x''), (''method'', JStr ''tools/call'')],
       Advance 28000,
       Advance 2000,
       Advance 600000]) = []\<close>
  by code_simp

section \<open>The supervisor, the registry and the facade: claims C5, C6, C7, C8 and C10\<close>

text \<open>
  Claim C5 at an input where the code fails it. Two calls for \<^verbatim>\<open>node server.js\<close> under
  the identity \<^verbatim>\<open>srv\<close> on the empty registry, the second made while the first is suspended
  at \<^verbatim>\<open>await spawnMCPProcess(...)\<close>. Each finds the identity in neither \<^verbatim>\<open>Map\<close> and spawns
  a process; each, when it is resumed, writes its process to \<open>activeProcesses\<close>, makes its
  transport, and stores and returns a connection of its own. Two processes were spawned,
  the two calls return different connections, and both maps end with the entries of the
  second call. The process of the first call is in neither map: \<^verbatim>\<open>cleanupClients\<close> kills
  the second process and leaves the first running. When the second call is made after the
  first has returned, it gets the connection of the first and there is one process.
\<close>

theorem C5_overlapping_calls:
  "interleaved quiet_world empty_registry
     [Call ''node'' [''server.js''] (Some ''srv''),
      Call ''node'' [''server.js''] (Some ''srv''),
      Resume 0, Resume 1, Resume 0, Resume 1]
   = (\<lparr>activeClients = [(''srv'', 1)], activeProcesses = [(''srv'', 1)],
       connections = [\<lparr>c_process = 0, c_connected = True\<rparr>, \<lparr>c_process = 1, c_connected = True\<rparr>],
       processes = [\<lparr>p_exited = False, p_killed = False\<rparr>, \<lparr>p_exited = False, p_killed = False\<rparr>],
       errlog = []\<rparr>,
      [Returned (Inr 0), Returned (Inr 1)]) \<and>
   cleanupClients []
     (fst (interleaved quiet_world empty_registry
        [Call ''node'' [''server.js''] (Some ''srv''),
         Call ''node'' [''server.js''] (Some ''srv''),
         Resume 0, Resume 1, Resume 0, Resume 1]))
   = Inr \<lparr>activeClients = [], activeProcesses = [],
       connections = [\<lparr>c_process = 0, c_connected = True\<rparr>, \<lparr>c_process = 1, c_connected = True\<rparr>],
       processes = [\<lparr>p_exited = False, p_killed = False\<rparr>, \<lparr>p_exited = False, p_killed = True\<rparr>],
       errlog = []\<rparr> \<and>
   interleaved quiet_world empty_registry
     [Call ''node'' [''server.js''] (Some ''srv''),
      Resume 0, Resume 0,
      Call ''node'' [''server.js''] (Some ''srv'')]
   = (\<lparr>activeClients = [(''srv'', 0)], activeProcesses = [(''srv'', 0)],
       connections = [\<lparr>c_process = 0, c_connected = True\<rparr>],
       processes = [\<lparr>p_exited = False, p_killed = False\<rparr>], errlog = []\<rparr>,
      [Returned (Inr 0), Returned (Inr 0)])"
  unfolding quiet_world_def by code_simp

text \<open>
  Claim C6 at inputs where the code fails it. First: a child that writes a line with
  \<^verbatim>\<open>ENOENT\<close> to stderr and goes on running makes \<^verbatim>\<open>spawnMCPProcess\<close> reject; the call
  throws, nothing is stored, and the process is neither killed nor kept anywhere: it runs
  on. Second and third: when the \<^verbatim>\<open>try\<close> around \<^verbatim>\<open>client.connect\<close> is left with an error, the
  transport is closed and the process killed, but its entry stays in \<open>activeProcesses\<close>;
  when the \<^verbatim>\<open>try\<close> around the transport's constructor is left with an error, the process
  is not killed and its entry stays. Fourth: the next call for that identity takes the
  killed process from \<open>activeProcesses\<close> and returns a connection over it.
\<close>

theorem C6_partial_entries:
  "getOrCreateClient
     \<lparr>child_events = [StderrData ''warning: ENOENT while reading optional config''],
       kill_failing = [], transport_error = None, connect_error = None\<rparr>
     empty_registry ''node'' [''server.js''] (Some ''srv'')
   = (Inl (FailedToCreateProcess (StartupError ''warning: ENOENT while reading optional config'')),
      \<lparr>activeClients = [], activeProcesses = [], connections = [],
        processes = [\<lparr>p_exited = False, p_killed = False\<rparr>], errlog = []\<rparr>) \<and>
   getOrCreateClient
     \<lparr>child_events = [], kill_failing = [], transport_error = None, connect_error = Some ''refused''\<rparr>
     empty_registry ''node'' [''server.js''] (Some ''srv'')
   = (Inl (ConnectFailed ''refused''),
      \<lparr>activeClients = [], activeProcesses = [(''srv'', 0)], connections = [],
        processes = [\<lparr>p_exited = False, p_killed = True\<rparr>], errlog = []\<rparr>) \<and>
   getOrCreateClient
     \<lparr>child_events = [], kill_failing = [], transport_error = Some ''no stdout'', connect_error = None\<rparr>
     empty_registry ''node'' [''server.js''] (Some ''srv'')
   = (Inl (FailedToCreateTransport ''no stdout''),
      \<lparr>activeClients = [], activeProcesses = [(''srv'', 0)], connections = [],
        processes = [\<lparr>p_exited = False, p_killed = False\<rparr>], errlog = []\<rparr>) \<and>
   getOrCreateClient quiet_world
      \<lparr>activeClients = [], activeProcesses = [(''srv'', 0)], connections = [],
        processes = [\<lparr>p_exited = False, p_killed = True\<rparr>], errlog = []\<rparr>
      ''node'' [''server.js''] (Some ''srv'')
   = (Inr 0,
      \<lparr>activeClients = [(''srv'', 0)], activeProcesses = [(''srv'', 0)],
        connections = [\<lparr>c_process = 0, c_connected = True\<rparr>],
        processes = [\<lparr>p_exited = False, p_killed = True\<rparr>], errlog = []\<rparr>)"
  unfolding quiet_world_def by code_simp

text \<open>
  Claim C7 at an input where the code fails it. A child that exits with code 0 before the
  timer, an immediate exit: the handler of \<^verbatim>\<open>exit\<close> rejects only for a code that is neither
  0 nor \<^verbatim>\<open>null\<close>, and the timer looks at \<^verbatim>\<open>mcpProcess.killed\<close> and at the flag of the
  handlers only, so the promise resolves with the handle of a process that is not running,
  and \<^verbatim>\<open>getOrCreateClient\<close> stores and returns a connection over it. The same holds for a
  child that ends by a signal. A child that exits with code 1, or that writes
  \<^verbatim>\<open>command not found\<close> to stderr and exits with code 127, is rejected with its startup
  error, as the claim says.
\<close>

theorem C7_exit_code_zero:
  "has_exited [ExitEvent (Some 0)] \<and>
   spawnMCPProcess ''node'' [ExitEvent (Some 0)] = Some (Inr ()) \<and>
   getOrCreateClient
     \<lparr>child_events = [ExitEvent (Some 0)], kill_failing = [], transport_error = None,
       connect_error = None\<rparr>
     empty_registry ''node'' [''server.js''] (Some ''srv'')
   = (Inr 0, \<lparr>activeClients = [(''srv'', 0)], activeProcesses = [(''srv'', 0)],
               connections = [\<lparr>c_process = 0, c_connected = True\<rparr>],
               processes = [\<lparr>p_exited = True, p_killed = False\<rparr>], errlog = []\<rparr>) \<and>
   spawnMCPProcess ''node'' [ExitEvent None] = Some (Inr ()) \<and>
   spawnMCPProcess ''node'' [ExitEvent (Some 1)] = Some (Inl (ExitedWithCode 1)) \<and>
   fst (getOrCreateClient
         \<lparr>child_events = [StderrData ''/bin/sh: nosuch: command not found'', ExitEvent (Some 127)],
           kill_failing = [], transport_error = None, connect_error = None\<rparr>
         empty_registry ''nosuch'' [] None)
     = Inl (FailedToCreateProcess (StartupError ''/bin/sh: nosuch: command not found''))"
  by code_simp

text \<open>
  Claim C8. \<^verbatim>\<open>cleanupClients\<close> does not throw, whatever \<^verbatim>\<open>kill\<close> does, and leaves both maps
  empty. In a registry whose references are sound, every process of a stored connection and
  every process of \<open>activeProcesses\<close> on which \<^verbatim>\<open>kill\<close> does not throw has got the signal
  or had exited before. A second call right after the first changes nothing and does not
  throw, and neither does a call on the empty registry.
\<close>

theorem C8_cleanup:
  "(\<exists>st'. cleanupClients failing st = Inr st' \<and>
       activeClients st' = [] \<and> activeProcesses st' = [] \<and>
       connections st' = connections st \<and> length (processes st') = length (processes st) \<and>
       (registry_ok st \<longrightarrow>
          (\<forall>e\<in>set (activeClients st). c_process (connections st ! snd e) \<notin> set failing
              \<longrightarrow> stopped (processes st') (c_process (connections st ! snd e))) \<and>
          (\<forall>e\<in>set (activeProcesses st). snd e \<notin> set failing \<longrightarrow> stopped (processes st') (snd e))) \<and>
       cleanupClients failing2 st' = Inr st')
   \<and> cleanupClients failing empty_registry = Inr empty_registry"
proof
  let ?st1 = "foldl (close_connection failing) st (activeClients st)"
  let ?st2 = "?st1\<lparr>activeClients := []\<rparr>"
  let ?st3 = "foldl (terminate_process failing) ?st2 (activeProcesses ?st2)"
  let ?st' = "?st3\<lparr>activeProcesses := []\<rparr>"
  have eq: "cleanupClients failing st = Inr ?st'" by (simp add: cleanupClients_def Let_def)
  note k1 = fold_close_keeps [of failing st "activeClients st"]
  note k3 = fold_terminate_keeps [of failing ?st2 "activeProcesses ?st2"]
  have ap: "activeProcesses ?st2 = activeProcesses st" using k1 by simp
  have a: "activeClients ?st' = []" using k3 by simp
  have b: "activeProcesses ?st' = []" by simp
  have c: "connections ?st' = connections st" using k1 k3 by simp
  have d: "length (processes ?st') = length (processes st)" using k1 k3 by simp
  have again: "cleanupClients failing2 ?st' = Inr ?st'"
    using a by (simp add: cleanupClients_def Let_def)
  have stops: "(\<forall>e\<in>set (activeClients st). c_process (connections st ! snd e) \<notin> set failing
              \<longrightarrow> stopped (processes ?st') (c_process (connections st ! snd e))) \<and>
          (\<forall>e\<in>set (activeProcesses st). snd e \<notin> set failing \<longrightarrow> stopped (processes ?st') (snd e))"
    if ok: "registry_ok st"
  proof (intro conjI ballI impI)
    fix e assume e: "e \<in> set (activeClients st)" and nf: "c_process (connections st ! snd e) \<notin> set failing"
    from ok e have i: "snd e < length (connections st)"
      by (auto simp: registry_ok_def list_all_iff)
    with ok have j: "c_process (connections st ! snd e) < length (processes st)"
      by (auto simp: registry_ok_def list_all_iff)
    from fold_close_stops [OF e i j nf]
    have "stopped (processes ?st2) (c_process (connections st ! snd e))" by simp
    with fold_terminate_keeps [of failing ?st2 "activeProcesses ?st2" "c_process (connections st ! snd e)"]
    show "stopped (processes ?st') (c_process (connections st ! snd e))" by simp
  next
    fix e assume e: "e \<in> set (activeProcesses st)" and nf: "snd e \<notin> set failing"
    from ok e have "snd e < length (processes st)" by (auto simp: registry_ok_def list_all_iff)
    with k1 have i: "snd e < length (processes ?st2)" by simp
    from e ap have "e \<in> set (activeProcesses ?st2)" by simp
    from fold_terminate_stops [OF this i nf]
    show "stopped (processes ?st') (snd e)" by simp
  qed
  show "\<exists>st'. cleanupClients failing st = Inr st' \<and>
       activeClients st' = [] \<and> activeProcesses st' = [] \<and>
       connections st' = connections st \<and> length (processes st') = length (processes st) \<and>
       (registry_ok st \<longrightarrow>
          (\<forall>e\<in>set (activeClients st). c_process (connections st ! snd e) \<notin> set failing
              \<longrightarrow> stopped (processes st') (c_process (connections st ! snd e))) \<and>
          (\<forall>e\<in>set (activeProcesses st). snd e \<notin> set failing \<longrightarrow> stopped (processes st') (snd e))) \<and>
       cleanupClients failing2 st' = Inr st'"
    using eq a b c d again stops by (intro exI [of _ ?st']) blast
next
  show "cleanupClients failing empty_registry = Inr empty_registry"
    by (simp add: cleanupClients_def empty_registry_def)
qed

text \<open>
  Two connected servers; \<^verbatim>\<open>kill\<close> throws on the process of the second. The error is
  logged in both loops, the first process is killed, both maps are empty.
\<close>

theorem C8_cleanup_witness:
  "(\<exists>st'. cleanupClients [1] two_servers = Inr st' \<and>
       activeClients st' = [] \<and> activeProcesses st' = [] \<and>
       stopped (processes st') 0 \<and> cleanupClients [] st' = Inr st' \<and>
       errlog st' = [''kill failed'', ''kill failed'']) \<and>
   cleanupClients [] empty_registry = Inr empty_registry"
proof -
  from C8_cleanup [of "[1]" two_servers "[]"] two_servers_ok
  obtain st' where s: "cleanupClients [1] two_servers = Inr st'"
    "activeClients st' = []" "activeProcesses st' = []"
    "\<forall>e\<in>set (activeProcesses two_servers). snd e \<notin> set [1::nat] \<longrightarrow> stopped (processes st') (snd e)"
    "cleanupClients [] st' = Inr st'"
    and e: "cleanupClients [1] empty_registry = Inr empty_registry"
    by blast
  have "(''a'', 0) \<in> set (activeProcesses two_servers)" by (simp add: two_servers_eq)
  with s(4) have "stopped (processes st') 0" by fastforce
  moreover from s(1) have "errlog st' = [''kill failed'', ''kill failed'']"
    using two_servers_cleanup by (simp del: One_nat_def) auto
  moreover have "cleanupClients [] empty_registry = Inr empty_registry"
    using C8_cleanup [of "[]" empty_registry "[]"] by blast
  ultimately show ?thesis using s by blast
qed



end
